theory Spec2Isabelle
  imports Complex_Main "HOL-Library.Sublist"
begin

section \<open>LekkerChat: replaying a chat log against a video timeline\<close>

text \<open>
  A shallow embedding of the replay engine of \<^verbatim>\<open>src/content.js\<close>: the offset
  heuristic (\<^verbatim>\<open>calculateSmartDefaultOffset\<close>, \<^verbatim>\<open>getTimeOffset\<close>), the reveal
  functions (\<^verbatim>\<open>showMessage\<close>, \<^verbatim>\<open>showPreviousMessages\<close>, \<^verbatim>\<open>showMissedMessages\<close>,
  \<^verbatim>\<open>showCurrentSecondMessages\<close>), the sampling callback installed by
  \<^verbatim>\<open>onVideoReady\<close>, \<^verbatim>\<open>refreshChatWithNewOffset\<close>, the \<^verbatim>\<open>updateSettings\<close> case of
  \<^verbatim>\<open>handleMessage\<close>, and \<^verbatim>\<open>cleanup\<close>.

  JavaScript numbers are modelled as rationals (\<^typ>\<open>rat\<close>): every comparison of the
  source is exact on them, and rounding of floating-point addition is not modelled.
  The module-level variables become the fields of one record, passed explicitly.
\<close>

subsection \<open>Data\<close>

text \<open>
  A chat comment. The source keeps comments as objects and the set \<^verbatim>\<open>shownMessages\<close>
  is keyed by object identity; \<open>ref\<close> stands for that identity, so that two comments with
  the same timestamp are still different values.
\<close>

record comment =
  ref :: nat
  content_offset_seconds :: rat

text \<open>The value of \<^verbatim>\<open>config?.timeOffset\<close>: undefined, null, or a number.\<close>

datatype setting = Undefined | Null | Number rat

text \<open>
  The value of \<^verbatim>\<open>document.querySelector('video')?.duration\<close>: unavailable (no video
  element, or NaN before the metadata is loaded), a number of seconds, or Infinity
  (a live stream).
\<close>

datatype duration = NoDuration | Duration rat | InfiniteDuration

text \<open>
  The element \<^verbatim>\<open>messageList\<close>: whether it has a parent node, and the comments whose
  elements were appended to it, in order.
\<close>

record message_list =
  parentNode :: bool
  children :: "comment list"

record state =
  chatData :: "comment list option"
  messageList :: "message_list option"
  shownMessages :: "comment set"
  timeOffset :: setting
  videoDuration :: duration
  video :: bool
  videoInterval :: bool
  isActive :: bool
  lastSecond :: int
  timers :: "(rat \<times> comment) list"
  now :: rat
  console :: "string list"

text \<open>
  \<open>chatData\<close> is \<^verbatim>\<open>chatData?.comments\<close> (\<open>None\<close> when \<^verbatim>\<open>chatData\<close> is null);
  \<open>video\<close> and \<open>videoInterval\<close> say whether the variable holds an element, respectively a
  running interval; \<open>timers\<close> are the pending \<^verbatim>\<open>setTimeout\<close> callbacks of
  \<^verbatim>\<open>showCurrentSecondMessages\<close>, each with the time in milliseconds at which it is due
  and the comment it will show, in firing order; \<open>now\<close> is the clock in milliseconds;
  \<open>console\<close> collects the warnings and errors written to the console.
\<close>

datatype outcome = Returned state | Thrown state

definition SKIP_THRESHOLD :: int where
  "SKIP_THRESHOLD = 15"

definition PREVIOUS_MESSAGES_COUNT :: int where
  "PREVIOUS_MESSAGES_COUNT = 25"

subsection \<open>The offset\<close>

definition calculateSmartDefaultOffset :: "duration \<Rightarrow> rat option \<Rightarrow> int" where
  "calculateSmartDefaultOffset vd lastChatTimestamp =
     (let fallbackOffset = 900 in
      case (vd, lastChatTimestamp) of
        (Duration d, Some l) \<Rightarrow>
          if d \<noteq> 0 \<and> l \<noteq> 0 \<and> d > 0 \<and> l > 0 then
            (let calculatedOffset = \<lfloor>d - l\<rfloor> in
             if calculatedOffset \<ge> - 3600 \<and> calculatedOffset \<le> 3600
             then calculatedOffset else fallbackOffset)
          else fallbackOffset
      | _ \<Rightarrow> fallbackOffset)"

text \<open>
  With an infinite duration the source computes \<^verbatim>\<open>Math.floor(Infinity - l)\<close>, which is
  Infinity and fails the sanity check; without a duration or without a last timestamp the
  guard fails. Both fall back, as the last case does.
\<close>

definition lastChatTimestamp :: "comment list option \<Rightarrow> rat option" where
  "lastChatTimestamp cd =
     (case cd of
        None \<Rightarrow> None
      | Some cs \<Rightarrow> if length cs > 0 then Some (content_offset_seconds (last cs)) else None)"

text \<open>\<^verbatim>\<open>getTimeOffset\<close>: \<open>None\<close> is the value null, which the source returns as it is.\<close>

definition getTimeOffset :: "state \<Rightarrow> rat option" where
  "getTimeOffset s =
     (case timeOffset s of
        Number n \<Rightarrow> Some n
      | Null \<Rightarrow> None
      | Undefined \<Rightarrow>
          Some (of_int (calculateSmartDefaultOffset (videoDuration s)
                          (lastChatTimestamp (chatData s)))))"

text \<open>
  The part of \<^verbatim>\<open>initConfig\<close> that resolves the offset: a stored value that is null or
  undefined is replaced by the heuristic.
\<close>

definition initConfig :: "setting \<Rightarrow> state \<Rightarrow> state" where
  "initConfig stored s =
     (case stored of
        Number n \<Rightarrow> s\<lparr>timeOffset := Number n\<rparr>
      | _ \<Rightarrow> s\<lparr>timeOffset := Number (of_int (calculateSmartDefaultOffset (videoDuration s)
                                      (lastChatTimestamp (chatData s))))\<rparr>)"

text \<open>
  \<^verbatim>\<open>comment.content_offset_seconds + getTimeOffset()\<close>; adding null adds zero.
\<close>

definition adjusted :: "state \<Rightarrow> comment \<Rightarrow> rat" where
  "adjusted s c =
     content_offset_seconds c + (case getTimeOffset s of None \<Rightarrow> 0 | Some n \<Rightarrow> n)"

subsection \<open>Revealing one comment\<close>

text \<open>
  \<open>throws c\<close> says that building or appending the element of \<open>c\<close> throws
  (\<^verbatim>\<open>createChatMessage\<close>, \<^verbatim>\<open>appendChild\<close>): the comment is then already in
  \<^verbatim>\<open>shownMessages\<close>, and nothing was appended.
\<close>

definition showMessage :: "(comment \<Rightarrow> bool) \<Rightarrow> comment \<Rightarrow> state \<Rightarrow> outcome" where
  "showMessage throws c s =
     (case messageList s of
        None \<Rightarrow> Returned (s\<lparr>console := console s @ [''Cannot show message'']\<rparr>)
      | Some ml \<Rightarrow>
          (let s1 = s\<lparr>shownMessages := insert c (shownMessages s)\<rparr> in
           if throws c then Thrown s1
           else Returned (s1\<lparr>messageList := Some (ml\<lparr>children := children ml @ [c]\<rparr>)\<rparr>)))"

text \<open>\<^verbatim>\<open>messageList.innerHTML = ""\<close>, when there is a message list.\<close>

definition clearMessageList :: "state \<Rightarrow> state" where
  "clearMessageList s =
     (case messageList s of
        None \<Rightarrow> s
      | Some ml \<Rightarrow> s\<lparr>messageList := Some (ml\<lparr>children := []\<rparr>)\<rparr>)"

subsection \<open>The three reveal functions\<close>

text \<open>\<^verbatim>\<open>Array.prototype.findIndex\<close>: the first index that satisfies the test, or -1.\<close>

fun findIndex :: "('a \<Rightarrow> bool) \<Rightarrow> 'a list \<Rightarrow> int" where
  "findIndex P [] = - 1"
| "findIndex P (x # xs) =
     (if P x then 0 else (let i = findIndex P xs in if i = - 1 then - 1 else i + 1))"

text \<open>
  The loop of \<^verbatim>\<open>showPreviousMessages\<close> over the comments at the chosen indices: each
  is shown unless it is in \<^verbatim>\<open>shownMessages\<close> by then; an exception leaves the loop.
\<close>

fun showUnshown :: "(comment \<Rightarrow> bool) \<Rightarrow> comment list \<Rightarrow> state \<Rightarrow> outcome" where
  "showUnshown throws [] s = Returned s"
| "showUnshown throws (c # cs) s =
     (if c \<notin> shownMessages s then
        (case showMessage throws c s of
           Thrown s' \<Rightarrow> Thrown s'
         | Returned s' \<Rightarrow> showUnshown throws cs s')
      else showUnshown throws cs s)"

definition showPreviousMessages :: "(comment \<Rightarrow> bool) \<Rightarrow> int \<Rightarrow> state \<Rightarrow> state" where
  "showPreviousMessages throws second s =
     (case chatData s of
        None \<Rightarrow> s\<lparr>console := console s @ [''No chat data available for showing previous messages'']\<rparr>
      | Some cs \<Rightarrow>
          (let firstIdx = findIndex (\<lambda>c. adjusted s c < of_int second) (rev cs) in
           if firstIdx \<noteq> - 1 then
             (let startIdx = max 0 (firstIdx - PREVIOUS_MESSAGES_COUNT) in
              case showUnshown throws (map (\<lambda>i. cs ! i) [nat startIdx ..< nat firstIdx]) s of
                Returned s' \<Rightarrow> s'
              | Thrown s' \<Rightarrow> s'\<lparr>console := console s' @ [''Error showing previous messages'']\<rparr>)
           else s))"

text \<open>\<^verbatim>\<open>missedComments.forEach(comment => showMessage(comment))\<close>.\<close>

fun forEachShow :: "(comment \<Rightarrow> bool) \<Rightarrow> comment list \<Rightarrow> state \<Rightarrow> outcome" where
  "forEachShow throws [] s = Returned s"
| "forEachShow throws (c # cs) s =
     (case showMessage throws c s of
        Thrown s' \<Rightarrow> Thrown s'
      | Returned s' \<Rightarrow> forEachShow throws cs s')"

text \<open>The loop \<^verbatim>\<open>for (let sec = from; sec <= to; sec++)\<close> of \<^verbatim>\<open>showMissedMessages\<close>.\<close>

fun missedLoop :: "(comment \<Rightarrow> bool) \<Rightarrow> comment list \<Rightarrow> int list \<Rightarrow> state \<Rightarrow> outcome" where
  "missedLoop throws cs [] s = Returned s"
| "missedLoop throws cs (sec # secs) s =
     (let missedComments =
            filter (\<lambda>c. adjusted s c = of_int sec \<and> c \<notin> shownMessages s) cs in
      case forEachShow throws missedComments s of
        Thrown s' \<Rightarrow> Thrown s'
      | Returned s' \<Rightarrow> missedLoop throws cs secs s')"

definition showMissedMessages :: "(comment \<Rightarrow> bool) \<Rightarrow> int \<Rightarrow> int \<Rightarrow> state \<Rightarrow> state" where
  "showMissedMessages throws from to s =
     (case chatData s of
        None \<Rightarrow> s\<lparr>console := console s @ [''No chat data available for showing missed messages'']\<rparr>
      | Some cs \<Rightarrow>
          (case missedLoop throws cs [from..to] s of
             Returned s' \<Rightarrow> s'
           | Thrown s' \<Rightarrow> s'\<lparr>console := console s' @ [''Error showing missed messages'']\<rparr>))"

text \<open>
  Pending timers are kept in firing order: by due time, and among equal due times in the
  order of the \<^verbatim>\<open>setTimeout\<close> calls. A delay is kept as the exact quotient that the
  source passes; that a browser rounds or clamps it is not modelled.
\<close>

fun enqueue :: "rat \<times> comment \<Rightarrow> (rat \<times> comment) list \<Rightarrow> (rat \<times> comment) list" where
  "enqueue t [] = [t]"
| "enqueue t (u # us) = (if fst u \<le> fst t then u # enqueue t us else t # u # us)"

text \<open>\<^verbatim>\<open>setTimeout(() => { showMessage(comment); }, delay)\<close>.\<close>

definition setTimeout :: "comment \<Rightarrow> rat \<Rightarrow> state \<Rightarrow> state" where
  "setTimeout c delay s = s\<lparr>timers := enqueue (now s + delay, c) (timers s)\<rparr>"

definition commentsThisSecond :: "int \<Rightarrow> comment list \<Rightarrow> state \<Rightarrow> comment list" where
  "commentsThisSecond currentSecond cs s =
     filter (\<lambda>c. adjusted s c = of_int currentSecond \<and> c \<notin> shownMessages s) cs"

definition showCurrentSecondMessages :: "int \<Rightarrow> state \<Rightarrow> state" where
  "showCurrentSecondMessages currentSecond s =
     (case chatData s of
        None \<Rightarrow> s
      | Some cs \<Rightarrow>
          (let sel = commentsThisSecond currentSecond cs s;
               count = length sel in
           if count > 0 then
             fold (\<lambda>(idx, c). setTimeout c ((of_nat idx * 1000) / of_nat count))
                  (enumerate 0 sel) s
           else s))"

subsection \<open>The sampling callback\<close>

text \<open>
  The body of the \<^verbatim>\<open>if (currentSecond !== lastSecond)\<close> block up to, and not including,
  the assignment to \<^verbatim>\<open>lastSecond\<close>: the backfill of a large or a small jump.
\<close>

definition jumpBackfill :: "(comment \<Rightarrow> bool) \<Rightarrow> int \<Rightarrow> state \<Rightarrow> state" where
  "jumpBackfill throws currentSecond s =
     (if \<bar>currentSecond - lastSecond s\<bar> > SKIP_THRESHOLD then
        showPreviousMessages throws currentSecond (clearMessageList (s\<lparr>shownMessages := {}\<rparr>))
      else if \<bar>currentSecond - lastSecond s\<bar> > 1 then
        (let from = min (lastSecond s) currentSecond + 1;
             to = max (lastSecond s) currentSecond in
         showMissedMessages throws from to s)
      else s)"

text \<open>
  The callback of \<^verbatim>\<open>setInterval\<close> in \<^verbatim>\<open>onVideoReady\<close>, given what the video element
  reports: \<^verbatim>\<open>video.paused\<close> and \<^verbatim>\<open>video.currentTime\<close>.
\<close>

definition onInterval :: "(comment \<Rightarrow> bool) \<Rightarrow> bool \<Rightarrow> rat \<Rightarrow> state \<Rightarrow> state" where
  "onInterval throws paused currentTime s =
     (if \<not> video s \<or> paused then s
      else
        (let currentSecond = \<lfloor>currentTime\<rfloor> in
         if currentSecond \<noteq> lastSecond s then
           (let s1 = jumpBackfill throws currentSecond s;
                s2 = s1\<lparr>lastSecond := currentSecond\<rparr> in
            showCurrentSecondMessages currentSecond s2)
         else s))"

subsection \<open>Offset change and teardown\<close>

definition refreshChatWithNewOffset :: "(comment \<Rightarrow> bool) \<Rightarrow> rat \<Rightarrow> state \<Rightarrow> state" where
  "refreshChatWithNewOffset throws currentTime s =
     (if \<not> video s \<or> chatData s = None \<or> messageList s = None then s
      else
        (let s1 = clearMessageList (s\<lparr>shownMessages := {}\<rparr>);
             s2 = s1\<lparr>lastSecond := - 1\<rparr>;
             currentSecond = \<lfloor>currentTime\<rfloor> in
         showPreviousMessages throws currentSecond s2))"

text \<open>
  The case \<^verbatim>\<open>'updateSettings'\<close> of \<^verbatim>\<open>handleMessage\<close>; \<open>new\<close> is the value of
  \<^verbatim>\<open>timeOffset\<close> in \<^verbatim>\<open>request.settings\<close>, \<open>None\<close> when the settings have no such key.
\<close>

definition updateSettings ::
  "(comment \<Rightarrow> bool) \<Rightarrow> setting option \<Rightarrow> rat \<Rightarrow> state \<Rightarrow> state" where
  "updateSettings throws new currentTime s =
     (let oldOffset = timeOffset s;
          s1 = (case new of None \<Rightarrow> s | Some v \<Rightarrow> s\<lparr>timeOffset := v\<rparr>) in
      if oldOffset \<noteq> timeOffset s1 \<and> isActive s1 \<and> video s1
      then refreshChatWithNewOffset throws currentTime s1 else s1)"

definition cleanup :: "state \<Rightarrow> state" where
  "cleanup s =
     s\<lparr>shownMessages := {},
       messageList := (case messageList s of
                         None \<Rightarrow> None
                       | Some ml \<Rightarrow> if parentNode ml then None else Some ml),
       videoInterval := False,
       lastSecond := - 1,
       video := False,
       isActive := False,
       chatData := None\<rparr>"

subsection \<open>Time\<close>

text \<open>
  A timer callback calls \<^verbatim>\<open>showMessage\<close> outside every \<^verbatim>\<open>try\<close> block: an exception
  ends that callback only, and the browser reports it.
\<close>

definition fireTimer :: "(comment \<Rightarrow> bool) \<Rightarrow> comment \<Rightarrow> state \<Rightarrow> state" where
  "fireTimer throws c s =
     (case showMessage throws c s of
        Returned s' \<Rightarrow> s'
      | Thrown s' \<Rightarrow> s'\<lparr>console := console s' @ [''Uncaught'']\<rparr>)"

text \<open>Letting \<open>dt\<close> milliseconds pass fires, in order, the timers that become due.\<close>

definition elapse :: "(comment \<Rightarrow> bool) \<Rightarrow> rat \<Rightarrow> state \<Rightarrow> state" where
  "elapse throws dt s =
     (let t = now s + dt;
          due = takeWhile (\<lambda>u. fst u \<le> t) (timers s);
          rest = dropWhile (\<lambda>u. fst u \<le> t) (timers s) in
      fold (\<lambda>u. fireTimer throws (snd u)) due (s\<lparr>timers := rest, now := t\<rparr>))"

datatype input =
    Sample bool rat
  | Elapse rat
  | UpdateSettings "setting option" rat
  | Cleanup

text \<open>
  One event of the page: the interval fires (only while it is installed) and reads the
  video, time passes, the popup sends new settings, or the session is torn down.
\<close>

fun step :: "(comment \<Rightarrow> bool) \<Rightarrow> input \<Rightarrow> state \<Rightarrow> state" where
  "step throws (Sample paused currentTime) s =
     (if videoInterval s then onInterval throws paused currentTime s else s)"
| "step throws (Elapse dt) s = elapse throws dt s"
| "step throws (UpdateSettings new currentTime) s = updateSettings throws new currentTime s"
| "step throws Cleanup s = cleanup s"

definition run :: "(comment \<Rightarrow> bool) \<Rightarrow> input list \<Rightarrow> state \<Rightarrow> state" where
  "run throws ins s = fold (step throws) ins s"

section \<open>Notions used to state the properties\<close>

text \<open>The comments shown in the feed, in order (none without a message list).\<close>

definition feed :: "state \<Rightarrow> comment list" where
  "feed s = (case messageList s of None \<Rightarrow> [] | Some ml \<Rightarrow> children ml)"

fun final :: "outcome \<Rightarrow> state" where
  "final (Returned s) = s"
| "final (Thrown s) = s"

text \<open>
  The comments that \<^verbatim>\<open>showMissedMessages\<close> selects for the seconds \<open>secs\<close>, second by
  second, as seen from the state in which it is called.
\<close>

definition missedBatch :: "state \<Rightarrow> comment list \<Rightarrow> int list \<Rightarrow> comment list" where
  "missedBatch s cs secs =
     concat (map (\<lambda>sec. filter (\<lambda>c. adjusted s c = of_int sec \<and> c \<notin> shownMessages s) cs) secs)"

text \<open>
  The comments of a batch for which \<^verbatim>\<open>showMessage\<close> is called when the loop ends at
  the first exception: those before the first throwing one, and that one.
\<close>

definition attempted :: "(comment \<Rightarrow> bool) \<Rightarrow> comment list \<Rightarrow> comment list" where
  "attempted throws cs =
     takeWhile (\<lambda>c. \<not> throws c) cs @ take 1 (dropWhile (\<lambda>c. \<not> throws c) cs)"

text \<open>
  The timers of one staggered second: the \<open>idx\<close>-th of \<open>n\<close> selected comments is due
  \<open>idx * 1000 / n\<close> milliseconds after \<open>t0\<close>.
\<close>

definition stagger :: "rat \<Rightarrow> comment list \<Rightarrow> (rat \<times> comment) list" where
  "stagger t0 sel =
     map (\<lambda>(idx, c). (t0 + (of_nat idx * 1000) / of_nat (length sel), c)) (enumerate 0 sel)"

text \<open>The comments of a list that are not in \<open>S\<close>, each once.\<close>

fun unshown :: "comment set \<Rightarrow> comment list \<Rightarrow> comment list" where
  "unshown S [] = []"
| "unshown S (c # cs) = (if c \<notin> S then c # unshown (insert c S) cs else unshown S cs)"

text \<open>The comments at the indices that the loop of \<^verbatim>\<open>showPreviousMessages\<close> visits.\<close>

definition previousWindow :: "state \<Rightarrow> comment list \<Rightarrow> int \<Rightarrow> comment list" where
  "previousWindow s cs second =
     (let firstIdx = findIndex (\<lambda>c. adjusted s c < of_int second) (rev cs) in
      if firstIdx \<noteq> - 1
      then map (\<lambda>i. cs ! i) [nat (max 0 (firstIdx - PREVIOUS_MESSAGES_COUNT)) ..< nat firstIdx]
      else [])"

definition is_integer :: "rat \<Rightarrow> bool" where
  "is_integer x \<longleftrightarrow> of_int \<lfloor>x\<rfloor> = x"




text \<open>
  A session that tracks the log \<open>cs\<close> with offset 0: the message list is attached and
  empty, nothing is shown or pending, and the last sampled second is \<open>l\<close>.
\<close>

definition tracking :: "comment list \<Rightarrow> int \<Rightarrow> state" where
  "tracking cs l =
     \<lparr>chatData = Some cs,
      messageList = Some \<lparr>parentNode = True, children = []\<rparr>,
      shownMessages = {}, timeOffset = Number 0, videoDuration = NoDuration,
      video = True, videoInterval = True, isActive = True, lastSecond = l,
      timers = [], now = 0, console = []\<rparr>"

definition cm :: "nat \<Rightarrow> rat \<Rightarrow> comment" where
  "cm r t = \<lparr>ref = r, content_offset_seconds = t\<rparr>"

section \<open>Auxiliary facts\<close>

lemma adjusted_cong: "chatData s' = chatData s \<Longrightarrow> timeOffset s' = timeOffset s \<Longrightarrow> videoDuration s' = videoDuration s \<Longrightarrow> adjusted s' = adjusted s"
  by (rule ext) (simp add: adjusted_def getTimeOffset_def split: setting.splits)

lemma showMessage_Some:
  "messageList s = Some ml \<Longrightarrow>
   showMessage throws c s =
     (if throws c then Thrown (s\<lparr>shownMessages := insert c (shownMessages s)\<rparr>)
      else Returned (s\<lparr>shownMessages := insert c (shownMessages s),
                      messageList := Some (ml\<lparr>children := children ml @ [c]\<rparr>)\<rparr>))"
  by (simp add: showMessage_def)

lemma showMessage_None:
  "messageList s = None \<Longrightarrow>
   showMessage throws c s = Returned (s\<lparr>console := console s @ [''Cannot show message'']\<rparr>)"
  by (simp add: showMessage_def)

lemma forEachShow_Some:
  "messageList s = Some ml \<Longrightarrow>
   forEachShow throws cs s =
     (if list_ex throws cs then Thrown else Returned)
       (s\<lparr>shownMessages := shownMessages s \<union> set (attempted throws cs),
          messageList := Some (ml\<lparr>children := children ml @ takeWhile (\<lambda>c. \<not> throws c) cs\<rparr>)\<rparr>)"
proof (induction cs arbitrary: s ml)
  case Nil
  then show ?case by (simp add: attempted_def)
next
  case (Cons c cs)
  show ?case
  proof (cases "throws c")
    case True
    with Cons.prems show ?thesis
      by (simp add: showMessage_Some attempted_def)
  next
    case False
    let ?s1 = "s\<lparr>shownMessages := insert c (shownMessages s),
                      messageList := Some (ml\<lparr>children := children ml @ [c]\<rparr>)\<rparr>"
    have m: "messageList ?s1 = Some (ml\<lparr>children := children ml @ [c]\<rparr>)" by simp
    show ?thesis
      using False Cons.prems
      by (simp add: showMessage_Some Cons.IH [OF m] attempted_def)
  qed
qed

lemma forEachShow_None:
  "messageList s = None \<Longrightarrow>
   forEachShow throws cs s =
     Returned (s\<lparr>console := console s @ replicate (length cs) ''Cannot show message''\<rparr>)"
proof (induction cs arbitrary: s)
  case Nil
  then show ?case by simp
next
  case (Cons c cs)
  let ?s1 = "s\<lparr>console := console s @ [''Cannot show message'']\<rparr>"
  have m: "messageList ?s1 = None" using Cons.prems by simp
  show ?case using Cons.prems
    by (simp add: showMessage_None Cons.IH [OF m] replicate_app_Cons_same)
qed

lemma forEachShow_frame:
  "adjusted (final (forEachShow throws cs s)) = adjusted s"
  "shownMessages s \<subseteq> shownMessages (final (forEachShow throws cs s))"
  "shownMessages (final (forEachShow throws cs s)) \<subseteq> shownMessages s \<union> set cs"
  "chatData (final (forEachShow throws cs s)) = chatData s"
  "(messageList (final (forEachShow throws cs s)) = None) = (messageList s = None)"
proof -
  have a: "set (attempted throws cs) \<subseteq> set cs"
    by (auto simp: attempted_def dest: set_takeWhileD in_set_takeD set_dropWhileD)
  show "adjusted (final (forEachShow throws cs s)) = adjusted s"
    by (cases "messageList s") (auto intro!: adjusted_cong simp: forEachShow_None forEachShow_Some)
  show "shownMessages s \<subseteq> shownMessages (final (forEachShow throws cs s))"
    by (cases "messageList s") (auto simp: forEachShow_None forEachShow_Some)
  show "shownMessages (final (forEachShow throws cs s)) \<subseteq> shownMessages s \<union> set cs"
    using a by (cases "messageList s") (auto simp: forEachShow_None forEachShow_Some)
  show "chatData (final (forEachShow throws cs s)) = chatData s"
    by (cases "messageList s") (auto simp: forEachShow_None forEachShow_Some)
  show "(messageList (final (forEachShow throws cs s)) = None) = (messageList s = None)"
    by (cases "messageList s") (auto simp: forEachShow_None forEachShow_Some)
qed

lemma forEachShow_append:
  "forEachShow throws (xs @ ys) s =
     (case forEachShow throws xs s of Thrown s' \<Rightarrow> Thrown s' | Returned s' \<Rightarrow> forEachShow throws ys s')"
  by (induction xs arbitrary: s) (auto split: outcome.splits)

lemma missedLoop_batch:
  "distinct secs \<Longrightarrow> missedLoop throws cs secs s = forEachShow throws (missedBatch s cs secs) s"
proof (induction secs arbitrary: s)
  case Nil
  then show ?case by (simp add: missedBatch_def)
next
  case (Cons sec secs)
  let ?m = "filter (\<lambda>c. adjusted s c = of_int sec \<and> c \<notin> shownMessages s) cs"
  have split: "missedBatch s cs (sec # secs) = ?m @ missedBatch s cs secs"
    by (simp add: missedBatch_def)
  show ?case
  proof (cases "forEachShow throws ?m s")
    case (Thrown s')
    then show ?thesis by (simp add: split forEachShow_append)
  next
    case (Returned s')
    have fr: "adjusted s' = adjusted s" "shownMessages s \<subseteq> shownMessages s'"
        "shownMessages s' \<subseteq> shownMessages s \<union> set ?m"
      using forEachShow_frame [where throws = throws and cs = ?m and s = s] Returned by simp_all
    have "missedBatch s' cs secs = missedBatch s cs secs"
      unfolding missedBatch_def
    proof (intro arg_cong [where f = concat] map_cong refl filter_cong)
      fix k c assume k: "k \<in> set secs" and c: "c \<in> set cs"
      from k Cons.prems have "k \<noteq> sec" by auto
      then show "(adjusted s' c = of_int k \<and> c \<notin> shownMessages s') =
                 (adjusted s c = of_int k \<and> c \<notin> shownMessages s)"
        using fr by auto
    qed
    moreover from Cons.prems have "distinct secs" by simp
    ultimately show ?thesis
      using Returned Cons.IH [of s'] by (simp add: split forEachShow_append)
  qed
qed

lemma showMissedMessages_batch:
  "chatData s = Some cs \<Longrightarrow>
   showMissedMessages throws from to s =
     (case forEachShow throws (missedBatch s cs [from..to]) s of
        Returned s' \<Rightarrow> s'
      | Thrown s' \<Rightarrow> s'\<lparr>console := console s' @ [''Error showing missed messages'']\<rparr>)"
  by (simp add: showMissedMessages_def missedLoop_batch)

lemma fold_setTimeout:
  "fold (\<lambda>(idx, c). setTimeout c (f idx)) xs s =
     s\<lparr>timers := fold enqueue (map (\<lambda>(idx, c). (now s + f idx, c)) xs) (timers s)\<rparr>"
  by (induction xs arbitrary: s) (auto simp: setTimeout_def)

lemma showCurrentSecondMessages_timers:
  "chatData s = Some cs \<Longrightarrow>
   showCurrentSecondMessages cur s =
     s\<lparr>timers := fold enqueue (stagger (now s) (commentsThisSecond cur cs s)) (timers s)\<rparr>"
  by (simp add: showCurrentSecondMessages_def Let_def fold_setTimeout stagger_def)

lemma showCurrentSecondMessages_None:
  "chatData s = None \<Longrightarrow> showCurrentSecondMessages cur s = s"
  by (simp add: showCurrentSecondMessages_def)

lemma enqueue_last:
  "\<forall>u\<in>set us. fst u \<le> fst t \<Longrightarrow> enqueue t us = us @ [t]"
  by (induction us) auto

lemma fold_enqueue_sorted:
  "sorted (map fst xs) \<Longrightarrow> fold enqueue xs [] = xs"
proof (induction xs rule: rev_induct)
  case Nil
  then show ?case by simp
next
  case (snoc x xs)
  then have "sorted (map fst xs)" and le: "\<forall>u\<in>set xs. fst u \<le> fst x"
    by (auto simp: sorted_append)
  with snoc.IH show ?case by (simp add: enqueue_last)
qed

lemma stagger_length: "length (stagger t0 sel) = length sel"
  by (simp add: stagger_def)

lemma stagger_nth:
  "i < length sel \<Longrightarrow>
   stagger t0 sel ! i = (t0 + (of_nat i * 1000) / of_nat (length sel), sel ! i)"
  by (simp add: stagger_def nth_enumerate_eq)

lemma stagger_snd: "map snd (stagger t0 sel) = sel"
  by (rule nth_equalityI) (simp_all add: stagger_length stagger_nth)

lemma stagger_strict:
  assumes "i < j" "j < length sel"
  shows "fst (stagger t0 sel ! i) < fst (stagger t0 sel ! j)"
proof -
  have "0 < (of_nat (length sel) :: rat)" using assms by (cases sel) simp_all
  moreover have "(of_nat i :: rat) * 1000 < of_nat j * 1000" using assms by simp
  ultimately have "(of_nat i * 1000) / (of_nat (length sel) :: rat) < (of_nat j * 1000) / of_nat (length sel)"
    by (simp add: divide_strict_right_mono)
  with assms show ?thesis by (simp add: stagger_nth)
qed

lemma stagger_sorted: "sorted (map fst (stagger t0 sel))"
  unfolding sorted_iff_nth_mono_less
  using stagger_strict [of _ _ sel t0] by (auto simp: stagger_length intro: less_imp_le)

lemma stagger_bound:
  assumes "u \<in> set (stagger t0 sel)"
  shows "t0 \<le> fst u \<and> fst u < t0 + 1000"
proof -
  from assms obtain i where i: "i < length sel" and u: "u = stagger t0 sel ! i"
    by (auto simp: in_set_conv_nth stagger_length)
  have pos: "0 < (of_nat (length sel) :: rat)" using i by (cases sel) simp_all
  have "(of_nat i :: rat) * 1000 < 1000 * of_nat (length sel)" using i by simp
  with pos have "(of_nat i * 1000) / (of_nat (length sel) :: rat) < 1000"
    by (simp add: pos_divide_less_eq)
  moreover have "0 \<le> (of_nat i * 1000) / (of_nat (length sel) :: rat)" by simp
  ultimately show ?thesis using i u by (simp add: stagger_nth)
qed

lemma enqueue_split:
  "sorted (map fst q) \<Longrightarrow>
   enqueue x q = filter (\<lambda>u. fst u \<le> fst x) q @ x # filter (\<lambda>u. \<not> fst u \<le> fst x) q"
proof (induction q)
  case Nil
  then show ?case by simp
next
  case (Cons u q)
  show ?case
  proof (cases "fst u \<le> fst x")
    case True
    with Cons show ?thesis by simp
  next
    case False
    with Cons.prems have "\<forall>v\<in>set q. \<not> fst v \<le> fst x" by fastforce
    then have "filter (\<lambda>u. fst u \<le> fst x) q = []" "filter (\<lambda>u. \<not> fst u \<le> fst x) q = q"
      by (simp_all add: filter_empty_conv filter_id_conv)
    with False show ?thesis by simp
  qed
qed

lemma set_enqueue: "set (enqueue x q) = insert x (set q)"
  by (induction q) auto

lemma set_fold_enqueue: "set (fold enqueue xs q) = set xs \<union> set q"
  by (induction xs arbitrary: q) (auto simp: set_enqueue)

lemma enqueue_sorted:
  "sorted (map fst q) \<Longrightarrow> sorted (map fst (enqueue x q))"
  by (induction q) (auto simp: set_enqueue)

lemma subseq_enqueue:
  assumes "sorted (map fst q)" "subseq xs q" "\<forall>u\<in>set xs. fst u \<le> fst x"
  shows "subseq (xs @ [x]) (enqueue x q)"
proof -
  have "filter (\<lambda>u. fst u \<le> fst x) xs = xs"
    using assms(3) by (simp add: filter_id_conv)
  moreover have "subseq (filter (\<lambda>u. fst u \<le> fst x) xs) (filter (\<lambda>u. fst u \<le> fst x) q)"
    using assms(2) by simp
  ultimately have "subseq xs (filter (\<lambda>u. fst u \<le> fst x) q)" by simp
  moreover have "subseq [x] (x # filter (\<lambda>u. \<not> fst u \<le> fst x) q)" by simp
  ultimately have "subseq (xs @ [x])
      (filter (\<lambda>u. fst u \<le> fst x) q @ x # filter (\<lambda>u. \<not> fst u \<le> fst x) q)"
    by (rule list_emb_append_mono)
  then show ?thesis using assms(1) by (simp add: enqueue_split)
qed

lemma fold_enqueue_subseq:
  "sorted (map fst q) \<Longrightarrow> sorted (map fst xs) \<Longrightarrow>
   subseq xs (fold enqueue xs q) \<and> sorted (map fst (fold enqueue xs q))"
proof (induction xs rule: rev_induct)
  case Nil
  then show ?case by simp
next
  case (snoc x xs)
  then have s: "sorted (map fst xs)" and le: "\<forall>u\<in>set xs. fst u \<le> fst x"
    by (auto simp: sorted_append)
  from snoc.IH [OF snoc.prems(1) s]
  have ih: "subseq xs (fold enqueue xs q)" "sorted (map fst (fold enqueue xs q))" by simp_all
  show ?case
    using subseq_enqueue [OF ih(2) ih(1) le] enqueue_sorted [OF ih(2)] by simp
qed

lemma fold_fireTimer_Some:
  "messageList s = Some ml \<Longrightarrow>
   fold (\<lambda>u. fireTimer throws (snd u)) us s =
     s\<lparr>shownMessages := shownMessages s \<union> snd ` set us,
        messageList := Some (ml\<lparr>children := children ml @ filter (\<lambda>c. \<not> throws c) (map snd us)\<rparr>),
        console := console s @ replicate (length (filter throws (map snd us))) ''Uncaught''\<rparr>"
proof (induction us arbitrary: s ml)
  case Nil
  then show ?case by simp
next
  case (Cons u us)
  show ?case
  proof (cases "throws (snd u)")
    case True
    let ?s1 = "s\<lparr>shownMessages := insert (snd u) (shownMessages s), console := console s @ [''Uncaught'']\<rparr>"
    have m: "messageList ?s1 = Some ml" using Cons.prems by simp
    have f: "fireTimer throws (snd u) s = ?s1"
      using True Cons.prems by (simp add: fireTimer_def showMessage_Some)
    show ?thesis using True
      by (simp add: f Cons.IH [OF m] replicate_app_Cons_same)
  next
    case False
    let ?s1 = "s\<lparr>shownMessages := insert (snd u) (shownMessages s),
                  messageList := Some (ml\<lparr>children := children ml @ [snd u]\<rparr>)\<rparr>"
    have m: "messageList ?s1 = Some (ml\<lparr>children := children ml @ [snd u]\<rparr>)" by simp
    have f: "fireTimer throws (snd u) s = ?s1"
      using False Cons.prems by (simp add: fireTimer_def showMessage_Some)
    show ?thesis using False
      by (simp add: f Cons.IH [OF m])
  qed
qed

lemma fold_fireTimer_None:
  "messageList s = None \<Longrightarrow>
   fold (\<lambda>u. fireTimer throws (snd u)) us s =
     s\<lparr>console := console s @ replicate (length us) ''Cannot show message''\<rparr>"
proof (induction us arbitrary: s)
  case Nil
  then show ?case by simp
next
  case (Cons u us)
  let ?s1 = "s\<lparr>console := console s @ [''Cannot show message'']\<rparr>"
  have m: "messageList ?s1 = None" using Cons.prems by simp
  have f: "fireTimer throws (snd u) s = ?s1"
    using Cons.prems by (simp add: fireTimer_def showMessage_None)
  show ?case by (simp add: f Cons.IH [OF m] replicate_app_Cons_same)
qed

lemma elapse_all_due:
  "\<forall>u\<in>set (timers s). fst u \<le> now s + dt \<Longrightarrow>
   elapse throws dt s =
     fold (\<lambda>u. fireTimer throws (snd u)) (timers s) (s\<lparr>timers := [], now := now s + dt\<rparr>)"
proof -
  assume a: "\<forall>u\<in>set (timers s). fst u \<le> now s + dt"
  have tw: "takeWhile (\<lambda>u. fst u \<le> now s + dt) (timers s) = timers s"
    using a by (simp add: takeWhile_eq_all_conv)
  have dw: "dropWhile (\<lambda>u. fst u \<le> now s + dt) (timers s) = []"
    using a by (simp add: dropWhile_eq_Nil_conv)
  show ?thesis unfolding elapse_def Let_def tw dw ..
qed

lemma filter_append_sorted:
  "sorted (map f cs) \<Longrightarrow> (\<And>x y. A x \<Longrightarrow> B y \<Longrightarrow> f x < f y) \<Longrightarrow>
   filter A cs @ filter B cs = filter (\<lambda>c. A c \<or> B c) cs"
proof (induction cs)
  case Nil
  then show ?case by simp
next
  case (Cons c cs)
  have ih: "filter A cs @ filter B cs = filter (\<lambda>c. A c \<or> B c) cs"
    using Cons by simp
  show ?case
  proof (cases "A c")
    case True
    then have "\<not> B c" using Cons.prems(2) [of c c] by auto
    with True ih show ?thesis by simp
  next
    case False
    show ?thesis
    proof (cases "B c")
      case True
      have "\<forall>x\<in>set cs. \<not> A x"
      proof
        fix x assume "x \<in> set cs"
        with Cons.prems(1) have "f c \<le> f x" by simp
        then show "\<not> A x" using Cons.prems(2) [of x c] True by auto
      qed
      then have "filter A cs = []" by (simp add: filter_empty_conv)
      with True False ih show ?thesis by simp
    next
      case False
      with \<open>\<not> A c\<close> ih show ?thesis by simp
    qed
  qed
qed

lemma concat_filter_sorted:
  fixes f :: "'a \<Rightarrow> rat"
  assumes "sorted (map f cs)"
  shows "sorted_wrt (<) ks \<Longrightarrow>
    concat (map (\<lambda>k. filter (\<lambda>c. f c = of_int k \<and> P c) cs) ks) =
    filter (\<lambda>c. (\<exists>k\<in>set ks. f c = of_int k) \<and> P c) cs"
proof (induction ks)
  case Nil
  then show ?case by simp
next
  case (Cons k ks)
  then have ih: "concat (map (\<lambda>k. filter (\<lambda>c. f c = of_int k \<and> P c) cs) ks) =
    filter (\<lambda>c. (\<exists>k\<in>set ks. f c = of_int k) \<and> P c) cs" by simp
  have "filter (\<lambda>c. f c = of_int k \<and> P c) cs @ filter (\<lambda>c. (\<exists>k\<in>set ks. f c = of_int k) \<and> P c) cs =
        filter (\<lambda>c. (f c = of_int k \<and> P c) \<or> ((\<exists>k\<in>set ks. f c = of_int k) \<and> P c)) cs"
  proof (rule filter_append_sorted [OF assms])
    fix x y assume "f x = of_int k \<and> P x" "(\<exists>k\<in>set ks. f y = of_int k) \<and> P y"
    then obtain k' where "k' \<in> set ks" "f y = of_int k'" "f x = of_int k" by auto
    moreover from Cons.prems \<open>k' \<in> set ks\<close> have "k < k'" by simp
    ultimately show "f x < f y" by simp
  qed
  also have "\<dots> = filter (\<lambda>c. (\<exists>k\<in>set (k # ks). f c = of_int k) \<and> P c) cs"
    by (rule filter_cong) auto
  finally show ?case by (simp add: ih)
qed

lemma adjusted_lastSecond [simp]: "adjusted (s\<lparr>lastSecond := x\<rparr>) = adjusted s"
  by (rule adjusted_cong) simp_all

lemma adjusted_timers [simp]: "adjusted (s\<lparr>timers := x\<rparr>) = adjusted s"
  by (rule adjusted_cong) simp_all

lemma adjusted_console [simp]: "adjusted (s\<lparr>console := x\<rparr>) = adjusted s"
  by (rule adjusted_cong) simp_all

lemma adjusted_shownMessages [simp]: "adjusted (s\<lparr>shownMessages := x\<rparr>) = adjusted s"
  by (rule adjusted_cong) simp_all

lemma adjusted_messageList [simp]: "adjusted (s\<lparr>messageList := x\<rparr>) = adjusted s"
  by (rule adjusted_cong) simp_all

lemma commentsThisSecond_lastSecond [simp]:
  "commentsThisSecond cur cs (s\<lparr>lastSecond := x\<rparr>) = commentsThisSecond cur cs s"
  by (simp add: commentsThisSecond_def)

lemma onInterval_forward:
  "video s \<Longrightarrow> \<bar>\<lfloor>t\<rfloor> - lastSecond s\<bar> = 1 \<Longrightarrow>
   onInterval throws False t s = showCurrentSecondMessages \<lfloor>t\<rfloor> (s\<lparr>lastSecond := \<lfloor>t\<rfloor>\<rparr>)"
  by (auto simp: onInterval_def jumpBackfill_def SKIP_THRESHOLD_def Let_def)

lemma onInterval_forward_Some:
  "video s \<Longrightarrow> \<bar>\<lfloor>t\<rfloor> - lastSecond s\<bar> = 1 \<Longrightarrow> chatData s = Some cs \<Longrightarrow>
   onInterval throws False t s =
     s\<lparr>lastSecond := \<lfloor>t\<rfloor>,
        timers := fold enqueue (stagger (now s) (commentsThisSecond \<lfloor>t\<rfloor> cs s)) (timers s)\<rparr>"
  by (simp add: onInterval_forward showCurrentSecondMessages_timers)

lemma stagger_fired:
  assumes "messageList s = Some ml" "timers s = stagger (now s) sel"
  shows "feed (elapse throws 1000 s) = feed s @ filter (\<lambda>c. \<not> throws c) sel"
    and "timers (elapse throws 1000 s) = []"
proof -
  have due: "\<forall>u\<in>set (timers s). fst u \<le> now s + 1000"
    using stagger_bound [of _ "now s" sel] assms(2) by (auto intro: less_imp_le)
  have m: "messageList (s\<lparr>timers := [], now := now s + 1000\<rparr>) = Some ml"
    using assms(1) by simp
  show "feed (elapse throws 1000 s) = feed s @ filter (\<lambda>c. \<not> throws c) sel"
    unfolding elapse_all_due [OF due] fold_fireTimer_Some [OF m]
    using assms by (simp add: feed_def stagger_snd)
  show "timers (elapse throws 1000 s) = []"
    unfolding elapse_all_due [OF due] fold_fireTimer_Some [OF m] by simp
qed

lemma stagger_four:
  assumes "length sel = 4"
  shows "map fst (stagger t0 sel) = [t0, t0 + 250, t0 + 500, t0 + 750]"
proof -
  from assms obtain a b c d where "sel = [a, b, c, d]"
    by (auto simp: numeral_eq_Suc length_Suc_conv)
  then show ?thesis by (simp add: stagger_def)
qed

lemma state_same [simp]:
  "messageList s = Some ml \<Longrightarrow> s\<lparr>messageList := Some ml\<rparr> = s"
  by (cases s) simp

lemma showMissedMessages_Some:
  assumes "chatData s = Some cs" "messageList s = Some ml"
  shows "showMissedMessages throws from to s =
     s\<lparr>shownMessages := shownMessages s \<union> set (attempted throws (missedBatch s cs [from..to])),
       messageList := Some (ml\<lparr>children := children ml @
                              takeWhile (\<lambda>c. \<not> throws c) (missedBatch s cs [from..to])\<rparr>),
       console := console s @ (if list_ex throws (missedBatch s cs [from..to])
                               then [''Error showing missed messages''] else [])\<rparr>"
  using assms by (simp add: showMissedMessages_batch forEachShow_Some)

lemma showMissedMessages_NoList:
  assumes "chatData s = Some cs" "messageList s = None"
  shows "showMissedMessages throws from to s =
     s\<lparr>console := console s @ replicate (length (missedBatch s cs [from..to])) ''Cannot show message''\<rparr>"
  using assms by (simp add: showMissedMessages_batch forEachShow_None)

lemma showMissedMessages_NoData:
  "chatData s = None \<Longrightarrow>
   showMissedMessages throws from to s =
     s\<lparr>console := console s @ [''No chat data available for showing missed messages'']\<rparr>"
  by (simp add: showMissedMessages_def)

lemma showUnshown_Some:
  "messageList s = Some ml \<Longrightarrow>
   showUnshown throws xs s = forEachShow throws (unshown (shownMessages s) xs) s"
proof (induction xs arbitrary: s ml)
  case Nil
  then show ?case by simp
next
  case (Cons c xs)
  show ?case
  proof (cases "c \<in> shownMessages s")
    case True
    with Cons show ?thesis by simp
  next
    case False
    let ?s1 = "s\<lparr>shownMessages := insert c (shownMessages s),
                  messageList := Some (ml\<lparr>children := children ml @ [c]\<rparr>)\<rparr>"
    have m: "messageList ?s1 = Some (ml\<lparr>children := children ml @ [c]\<rparr>)" by simp
    show ?thesis
      using False Cons.prems Cons.IH [OF m]
      by (simp add: showMessage_Some)
  qed
qed

lemma showUnshown_None:
  "messageList s = None \<Longrightarrow>
   showUnshown throws xs s =
     Returned (s\<lparr>console := console s @
        replicate (length (filter (\<lambda>c. c \<notin> shownMessages s) xs)) ''Cannot show message''\<rparr>)"
proof (induction xs arbitrary: s)
  case Nil
  then show ?case by simp
next
  case (Cons c xs)
  let ?s1 = "s\<lparr>console := console s @ [''Cannot show message'']\<rparr>"
  have m: "messageList ?s1 = None" using Cons.prems by simp
  show ?case
    using Cons.prems Cons.IH [OF m] Cons.IH [OF Cons.prems]
    by (simp add: showMessage_None replicate_app_Cons_same)
qed

lemma showPreviousMessages_window:
  "chatData s = Some cs \<Longrightarrow>
   showPreviousMessages throws second s =
     (case showUnshown throws (previousWindow s cs second) s of
        Returned s' \<Rightarrow> s'
      | Thrown s' \<Rightarrow> s'\<lparr>console := console s' @ [''Error showing previous messages'']\<rparr>)"
  by (simp add: showPreviousMessages_def previousWindow_def Let_def)

lemma showPreviousMessages_Some:
  assumes "chatData s = Some cs" "messageList s = Some ml"
  shows "showPreviousMessages throws second s =
     s\<lparr>shownMessages := shownMessages s \<union>
           set (attempted throws (unshown (shownMessages s) (previousWindow s cs second))),
       messageList := Some (ml\<lparr>children := children ml @
           takeWhile (\<lambda>c. \<not> throws c) (unshown (shownMessages s) (previousWindow s cs second))\<rparr>),
       console := console s @
          (if list_ex throws (unshown (shownMessages s) (previousWindow s cs second))
           then [''Error showing previous messages''] else [])\<rparr>"
  using assms by (simp add: showPreviousMessages_window showUnshown_Some forEachShow_Some)

lemma showPreviousMessages_NoList:
  assumes "chatData s = Some cs" "messageList s = None"
  shows "showPreviousMessages throws second s =
     s\<lparr>console := console s @
        replicate (length (filter (\<lambda>c. c \<notin> shownMessages s) (previousWindow s cs second)))
          ''Cannot show message''\<rparr>"
  using assms by (simp add: showPreviousMessages_window showUnshown_None)

lemma showPreviousMessages_NoData:
  "chatData s = None \<Longrightarrow>
   showPreviousMessages throws second s =
     s\<lparr>console := console s @ [''No chat data available for showing previous messages'']\<rparr>"
  by (simp add: showPreviousMessages_def)

lemma missedBatch_integer:
  "c \<in> set (missedBatch s cs secs) \<Longrightarrow> is_integer (adjusted s c)"
  by (auto simp: missedBatch_def is_integer_def)

lemma commentsThisSecond_integer:
  "c \<in> set (commentsThisSecond cur cs s) \<Longrightarrow> is_integer (adjusted s c)"
  by (auto simp: commentsThisSecond_def is_integer_def)

lemma showMissedMessages_frame [simp]:
  "chatData (showMissedMessages throws a b s) = chatData s"
  "timeOffset (showMissedMessages throws a b s) = timeOffset s"
  "videoDuration (showMissedMessages throws a b s) = videoDuration s"
  "video (showMissedMessages throws a b s) = video s"
  "videoInterval (showMissedMessages throws a b s) = videoInterval s"
  "isActive (showMissedMessages throws a b s) = isActive s"
  "lastSecond (showMissedMessages throws a b s) = lastSecond s"
  "timers (showMissedMessages throws a b s) = timers s"
  "now (showMissedMessages throws a b s) = now s"
  by (cases "chatData s"; cases "messageList s";
      simp add: showMissedMessages_NoData showMissedMessages_NoList showMissedMessages_Some)+

lemma showPreviousMessages_frame [simp]:
  "chatData (showPreviousMessages throws a s) = chatData s"
  "timeOffset (showPreviousMessages throws a s) = timeOffset s"
  "videoDuration (showPreviousMessages throws a s) = videoDuration s"
  "video (showPreviousMessages throws a s) = video s"
  "videoInterval (showPreviousMessages throws a s) = videoInterval s"
  "isActive (showPreviousMessages throws a s) = isActive s"
  "lastSecond (showPreviousMessages throws a s) = lastSecond s"
  "timers (showPreviousMessages throws a s) = timers s"
  "now (showPreviousMessages throws a s) = now s"
  by (cases "chatData s"; cases "messageList s";
      simp add: showPreviousMessages_NoData showPreviousMessages_NoList showPreviousMessages_Some)+

lemma showCurrentSecondMessages_frame [simp]:
  "chatData (showCurrentSecondMessages cur s) = chatData s"
  "timeOffset (showCurrentSecondMessages cur s) = timeOffset s"
  "videoDuration (showCurrentSecondMessages cur s) = videoDuration s"
  "video (showCurrentSecondMessages cur s) = video s"
  "videoInterval (showCurrentSecondMessages cur s) = videoInterval s"
  "isActive (showCurrentSecondMessages cur s) = isActive s"
  "lastSecond (showCurrentSecondMessages cur s) = lastSecond s"
  "now (showCurrentSecondMessages cur s) = now s"
  "messageList (showCurrentSecondMessages cur s) = messageList s"
  "shownMessages (showCurrentSecondMessages cur s) = shownMessages s"
  "console (showCurrentSecondMessages cur s) = console s"
  by (cases "chatData s";
      simp add: showCurrentSecondMessages_None showCurrentSecondMessages_timers)+

lemma clearMessageList_frame [simp]:
  "chatData (clearMessageList s) = chatData s"
  "timeOffset (clearMessageList s) = timeOffset s"
  "videoDuration (clearMessageList s) = videoDuration s"
  "video (clearMessageList s) = video s"
  "videoInterval (clearMessageList s) = videoInterval s"
  "isActive (clearMessageList s) = isActive s"
  "lastSecond (clearMessageList s) = lastSecond s"
  "timers (clearMessageList s) = timers s"
  "now (clearMessageList s) = now s"
  "shownMessages (clearMessageList s) = shownMessages s"
  "console (clearMessageList s) = console s"
  by (cases "messageList s"; simp add: clearMessageList_def)+

lemma jumpBackfill_frame [simp]:
  "chatData (jumpBackfill throws cur s) = chatData s"
  "timeOffset (jumpBackfill throws cur s) = timeOffset s"
  "videoDuration (jumpBackfill throws cur s) = videoDuration s"
  "video (jumpBackfill throws cur s) = video s"
  "videoInterval (jumpBackfill throws cur s) = videoInterval s"
  "isActive (jumpBackfill throws cur s) = isActive s"
  "lastSecond (jumpBackfill throws cur s) = lastSecond s"
  "timers (jumpBackfill throws cur s) = timers s"
  "now (jumpBackfill throws cur s) = now s"
  by (simp_all add: jumpBackfill_def Let_def)

lemma onInterval_frame [simp]:
  "chatData (onInterval throws p t s) = chatData s"
  "timeOffset (onInterval throws p t s) = timeOffset s"
  "videoDuration (onInterval throws p t s) = videoDuration s"
  "video (onInterval throws p t s) = video s"
  "videoInterval (onInterval throws p t s) = videoInterval s"
  "isActive (onInterval throws p t s) = isActive s"
  "now (onInterval throws p t s) = now s"
  by (simp_all add: onInterval_def Let_def)

lemma onInterval_lastSecond:
  "video s \<Longrightarrow> lastSecond (onInterval throws False t s) = \<lfloor>t\<rfloor>"
  by (simp add: onInterval_def Let_def)

lemma onInterval_again:
  "onInterval throws False t (onInterval throws False t s) = onInterval throws False t s"
proof (cases "video s")
  case True
  then have "lastSecond (onInterval throws False t s) = \<lfloor>t\<rfloor>" by (rule onInterval_lastSecond)
  then show ?thesis
    using onInterval_def [of throws False t "onInterval throws False t s"] by (simp add: Let_def)
next
  case False
  then show ?thesis by (simp add: onInterval_def)
qed

lemma adjusted_jumpBackfill [simp]: "adjusted (jumpBackfill throws cur s) = adjusted s"
  by (rule adjusted_cong) simp_all

lemma adjusted_showMissedMessages [simp]: "adjusted (showMissedMessages throws a b s) = adjusted s"
  by (rule adjusted_cong) simp_all

lemma attempted_subset: "set (attempted throws cs) \<subseteq> set cs"
  by (auto simp: attempted_def dest: set_takeWhileD in_set_takeD set_dropWhileD)

lemma showMissedMessages_feed:
  "\<exists>xs. feed (showMissedMessages throws a b s) = feed s @ xs
        \<and> set xs \<subseteq> {c. is_integer (adjusted s c)}"
proof (cases "chatData s")
  case None
  then show ?thesis by (simp add: showMissedMessages_NoData feed_def)
next
  case (Some cs)
  show ?thesis
  proof (cases "messageList s")
    case None
    with Some show ?thesis by (simp add: showMissedMessages_NoList feed_def)
  next
    case (Some ml)
    let ?xs = "takeWhile (\<lambda>c. \<not> throws c) (missedBatch s cs [a..b])"
    have "feed (showMissedMessages throws a b s) = feed s @ ?xs"
      using Some \<open>chatData s = Some cs\<close> by (simp add: showMissedMessages_Some feed_def)
    moreover have "set ?xs \<subseteq> {c. is_integer (adjusted s c)}"
      by (auto dest!: set_takeWhileD missedBatch_integer)
    ultimately show ?thesis by blast
  qed
qed

lemma showCurrentSecondMessages_new_timers:
  "u \<in> set (timers (showCurrentSecondMessages cur s)) \<Longrightarrow>
   u \<in> set (timers s) \<or> is_integer (adjusted s (snd u))"
proof (cases "chatData s")
  case None
  assume "u \<in> set (timers (showCurrentSecondMessages cur s))"
  with None show ?thesis by (simp add: showCurrentSecondMessages_None)
next
  case (Some cs)
  assume "u \<in> set (timers (showCurrentSecondMessages cur s))"
  with Some have "u \<in> set (stagger (now s) (commentsThisSecond cur cs s)) \<or> u \<in> set (timers s)"
    by (simp add: showCurrentSecondMessages_timers set_fold_enqueue)
  moreover have "snd u \<in> set (commentsThisSecond cur cs s)"
    if "u \<in> set (stagger (now s) (commentsThisSecond cur cs s))"
    using that stagger_snd [of "now s" "commentsThisSecond cur cs s"]
    by (metis image_eqI set_map)
  ultimately show ?thesis by (auto dest: commentsThisSecond_integer)
qed

lemma onInterval_not_large:
  assumes "\<bar>\<lfloor>t\<rfloor> - lastSecond s\<bar> \<le> SKIP_THRESHOLD"
  shows "(\<exists>xs. feed (onInterval throws p t s) = feed s @ xs
               \<and> set xs \<subseteq> {c. is_integer (adjusted s c)})"
    and "u \<in> set (timers (onInterval throws p t s)) \<Longrightarrow>
         u \<in> set (timers s) \<or> is_integer (adjusted s (snd u))"
proof -
  let ?cur = "\<lfloor>t\<rfloor>"
  let ?s1 = "jumpBackfill throws ?cur s"
  have f1: "\<exists>xs. feed ?s1 = feed s @ xs \<and> set xs \<subseteq> {c. is_integer (adjusted s c)}"
    using assms showMissedMessages_feed [of throws _ _ s]
    by (simp add: jumpBackfill_def Let_def)
  have fs: "feed (showCurrentSecondMessages ?cur (?s1\<lparr>lastSecond := ?cur\<rparr>)) = feed ?s1"
    by (simp add: feed_def)
  show "\<exists>xs. feed (onInterval throws p t s) = feed s @ xs
               \<and> set xs \<subseteq> {c. is_integer (adjusted s c)}"
    using f1 fs by (simp add: onInterval_def Let_def)
  show "u \<in> set (timers s) \<or> is_integer (adjusted s (snd u))"
    if "u \<in> set (timers (onInterval throws p t s))"
    using that showCurrentSecondMessages_new_timers [of u ?cur "?s1\<lparr>lastSecond := ?cur\<rparr>"]
    by (auto simp: onInterval_def Let_def split: if_splits)
qed

section \<open>The offset heuristic\<close>

text \<open>
  The heuristic itself: \<^verbatim>\<open>calculateSmartDefaultOffset\<close> returns
  \<open>\<lfloor>mediaDuration - lastEventTimestamp\<rfloor>\<close> when both are available and positive and that
  candidate lies in \<open>[-3600, 3600]\<close>, and the default 900 in every other case; a duration
  of 3600 with a last event at 3700 gives -100, and with a last event at 10000 gives 900.
  \<^verbatim>\<open>initConfig\<close> stores that value for a stored offset that is null or undefined, and
  \<^verbatim>\<open>getTimeOffset\<close> returns it while the configured offset is undefined.
\<close>

lemma smart_default_offset:
  "calculateSmartDefaultOffset (Duration d) (Some l) =
     (if 0 < d \<and> 0 < l \<and> - 3600 \<le> \<lfloor>d - l\<rfloor> \<and> \<lfloor>d - l\<rfloor> \<le> 3600 then \<lfloor>d - l\<rfloor> else 900)
   \<and> calculateSmartDefaultOffset NoDuration lt = 900
   \<and> calculateSmartDefaultOffset InfiniteDuration lt = 900
   \<and> calculateSmartDefaultOffset vd None = 900
   \<and> calculateSmartDefaultOffset (Duration 3600) (Some 3700) = - 100
   \<and> calculateSmartDefaultOffset (Duration 3600) (Some 10000) = 900
   \<and> timeOffset (initConfig Null s) =
       Number (of_int (calculateSmartDefaultOffset (videoDuration s) (lastChatTimestamp (chatData s))))
   \<and> timeOffset (initConfig Undefined s) =
       Number (of_int (calculateSmartDefaultOffset (videoDuration s) (lastChatTimestamp (chatData s))))
   \<and> getTimeOffset (s\<lparr>timeOffset := Undefined\<rparr>) =
       Some (of_int (calculateSmartDefaultOffset (videoDuration s) (lastChatTimestamp (chatData s))))"
  by (auto simp: calculateSmartDefaultOffset_def initConfig_def getTimeOffset_def
           split: duration.splits option.splits)

text \<open>
  Claim C8. With no explicit offset configured, the resolved offset should be the
  heuristic's value: -100 for a duration of 3600 and a last event at 3700.
  \<^verbatim>\<open>initConfig\<close> tests \<^verbatim>\<open>config.timeOffset == null\<close> and resolves a null so, but
  \<^verbatim>\<open>getTimeOffset\<close> tests only \<^verbatim>\<open>!== undefined\<close>: an offset that is null when the
  engine asks for it (set by \<^verbatim>\<open>updateSettings\<close>) is returned as it is, and adding it
  to a timestamp adds zero. With that duration and last event the comment at 3700 s gets
  the adjusted timestamp 3700, where the heuristic's -100 gives 3600.
\<close>

theorem null_offset_passes_through:
  "getTimeOffset (s\<lparr>timeOffset := Null\<rparr>) = None
   \<and> adjusted (s\<lparr>timeOffset := Null\<rparr>) c = content_offset_seconds c
   \<and> timeOffset (updateSettings (\<lambda>c. False) (Some Null) 50
         ((tracking [cm 1 3700] 50)\<lparr>videoDuration := Duration 3600\<rparr>)) = Null
   \<and> getTimeOffset (updateSettings (\<lambda>c. False) (Some Null) 50
         ((tracking [cm 1 3700] 50)\<lparr>videoDuration := Duration 3600\<rparr>)) = None
   \<and> adjusted (updateSettings (\<lambda>c. False) (Some Null) 50
         ((tracking [cm 1 3700] 50)\<lparr>videoDuration := Duration 3600\<rparr>)) (cm 1 3700) = 3700
   \<and> calculateSmartDefaultOffset (Duration 3600) (lastChatTimestamp (Some [cm 1 3700])) = - 100
   \<and> timeOffset (initConfig Null ((tracking [cm 1 3700] 50)\<lparr>videoDuration := Duration 3600\<rparr>))
       = Number (- 100)
   \<and> adjusted (initConfig Null ((tracking [cm 1 3700] 50)\<lparr>videoDuration := Duration 3600\<rparr>))
         (cm 1 3700) = 3600
   \<and> getTimeOffset ((tracking [cm 1 3700] 50)\<lparr>videoDuration := Duration 3600, timeOffset := Undefined\<rparr>)
       = Some (- 100)"
  by (simp add: getTimeOffset_def adjusted_def tracking_def cm_def updateSettings_def
        refreshChatWithNewOffset_def clearMessageList_def showPreviousMessages_def
        PREVIOUS_MESSAGES_COUNT_def calculateSmartDefaultOffset_def lastChatTimestamp_def
        initConfig_def Let_def)

text \<open>The adjusted timestamp under the null offset is not the one the heuristic gives.\<close>

theorem null_offset_passes_through_witness:
  "adjusted (updateSettings (\<lambda>c. False) (Some Null) 50
         ((tracking [cm 1 3700] 50)\<lparr>videoDuration := Duration 3600\<rparr>)) (cm 1 3700)
     \<noteq> content_offset_seconds (cm 1 3700) + of_int (calculateSmartDefaultOffset (Duration 3600) (Some 3700))"
proof -
  have "adjusted (updateSettings (\<lambda>c. False) (Some Null) 50
         ((tracking [cm 1 3700] 50)\<lparr>videoDuration := Duration 3600\<rparr>)) (cm 1 3700) = 3700"
    using null_offset_passes_through by blast
  then show ?thesis by (simp add: cm_def calculateSmartDefaultOffset_def)
qed


section \<open>Staggered reveal on a forward tick\<close>

text \<open>
  Claim C7. On a forward tick by exactly 1, with \<open>n\<close> not yet revealed comments sharing
  the current second, the \<open>i\<close>-th of them (from 0, in log order) is scheduled \<open>i/n\<close> of a
  second (\<open>i * 1000 / n\<close> ms) after the tick, so four comments are due 0, 250, 500 and
  750 ms after it; nothing is appended by the tick itself; the due times increase
  strictly with \<open>i\<close>, the new timers stand in the queue in log order, and when nothing
  else is pending they fire within the second and append the comments in log order.
\<close>

theorem forward_tick_stagger:
  assumes "video s" and "\<lfloor>t\<rfloor> = lastSecond s + 1" and "chatData s = Some cs"
  defines "sel \<equiv> commentsThisSecond \<lfloor>t\<rfloor> cs s"
  shows "timers (onInterval throws False t s) = fold enqueue (stagger (now s) sel) (timers s)
    \<and> feed (onInterval throws False t s) = feed s
    \<and> map snd (stagger (now s) sel) = sel
    \<and> (\<forall>i<length sel. fst (stagger (now s) sel ! i) = now s + (of_nat i * 1000) / of_nat (length sel))
    \<and> (length sel = 4 \<longrightarrow>
         map fst (stagger (now s) sel) = [now s, now s + 250, now s + 500, now s + 750])
    \<and> (\<forall>i j. i < j \<and> j < length sel \<longrightarrow>
         fst (stagger (now s) sel ! i) < fst (stagger (now s) sel ! j))
    \<and> (sorted (map fst (timers s)) \<longrightarrow>
         subseq (stagger (now s) sel) (timers (onInterval throws False t s)))
    \<and> (timers s = [] \<and> messageList s \<noteq> None \<and> (\<forall>c. \<not> throws c) \<longrightarrow>
         feed (elapse throws 1000 (onInterval throws False t s)) = feed s @ sel)"
proof -
  have fw: "\<bar>\<lfloor>t\<rfloor> - lastSecond s\<bar> = 1" using assms(2) by simp
  note eq = onInterval_forward_Some [OF assms(1) fw assms(3), of throws, folded sel_def]
  have 1: "timers (onInterval throws False t s) = fold enqueue (stagger (now s) sel) (timers s)"
    by (simp add: eq)
  have 2: "feed (onInterval throws False t s) = feed s"
    by (simp add: eq feed_def)
  have 7: "sorted (map fst (timers s)) \<longrightarrow>
         subseq (stagger (now s) sel) (timers (onInterval throws False t s))"
    using fold_enqueue_subseq [OF _ stagger_sorted, of "timers s" "now s" sel] by (simp add: 1)
  have 8: "timers s = [] \<and> messageList s \<noteq> None \<and> (\<forall>c. \<not> throws c) \<longrightarrow>
         feed (elapse throws 1000 (onInterval throws False t s)) = feed s @ sel"
  proof (intro impI, elim conjE)
    assume e: "timers s = []" and m: "messageList s \<noteq> None" and nt: "\<forall>c. \<not> throws c"
    from m obtain ml where ml: "messageList s = Some ml" by auto
    let ?s' = "onInterval throws False t s"
    have "messageList ?s' = Some ml" "timers ?s' = stagger (now ?s') sel"
      using ml e by (simp_all add: eq fold_enqueue_sorted stagger_sorted)
    from stagger_fired(1) [OF this, of throws] nt 2
    show "feed (elapse throws 1000 ?s') = feed s @ sel" by simp
  qed
  show ?thesis
    using 1 2 7 8 stagger_four [of sel "now s"] stagger_strict [of _ _ sel "now s"]
    by (simp add: stagger_snd stagger_nth)
qed

theorem forward_tick_stagger_witness:
  "timers (onInterval (\<lambda>c. False) False 10 (tracking [cm 1 10, cm 2 10, cm 3 10, cm 4 10, cm 5 11] 9))
     = [(0, cm 1 10), (250, cm 2 10), (500, cm 3 10), (750, cm 4 10)]
   \<and> feed (elapse (\<lambda>c. False) 1000
        (onInterval (\<lambda>c. False) False 10 (tracking [cm 1 10, cm 2 10, cm 3 10, cm 4 10, cm 5 11] 9)))
     = [cm 1 10, cm 2 10, cm 3 10, cm 4 10]"
  using forward_tick_stagger [of "tracking [cm 1 10, cm 2 10, cm 3 10, cm 4 10, cm 5 11] 9" 10
      "[cm 1 10, cm 2 10, cm 3 10, cm 4 10, cm 5 11]" "\<lambda>c. False"]
  by (simp add: tracking_def cm_def commentsThisSecond_def adjusted_def getTimeOffset_def
        stagger_def feed_def)

section \<open>Comments between two whole seconds\<close>

lemma floor_rat_numeral_divide [simp]:
  "\<lfloor>(numeral a :: rat) / numeral b\<rfloor> = numeral a div numeral b"
  using floor_divide_of_int_eq [of "numeral a" "numeral b", where ?'a = rat] by simp

lemma tick_example:
  "feed (onInterval (\<lambda>c. False) False 200 (tracking [cm 1 (3/2), cm 2 300] (- 1))) = [cm 1 (3/2)]"
  "\<not> is_integer (adjusted (tracking [cm 1 (3/2), cm 2 300] (- 1)) (cm 1 (3/2)))"
  by (simp_all add: tracking_def cm_def onInterval_def jumpBackfill_def SKIP_THRESHOLD_def
        PREVIOUS_MESSAGES_COUNT_def showPreviousMessages_def clearMessageList_def
        showCurrentSecondMessages_def commentsThisSecond_def showMessage_def
        adjusted_def getTimeOffset_def feed_def is_integer_def Let_def)

text \<open>
  Claim C10. A comment whose adjusted timestamp is not a whole number is never selected
  by the forward-tick path (\<^verbatim>\<open>showCurrentSecondMessages\<close>) nor by the small-jump
  backfill (\<^verbatim>\<open>showMissedMessages\<close>), which compare it to a whole second with strict
  equality: a sample that is not a large jump appends and schedules only comments with a
  whole adjusted timestamp. The previous-messages path of a large jump can reveal such a
  comment, as it does for the comment at 1.5 s in a jump to second 200.
\<close>

theorem fractional_timestamps:
  "(\<forall>c\<in>set (commentsThisSecond cur cs s). is_integer (adjusted s c))
   \<and> (\<forall>c\<in>set (missedBatch s cs secs). is_integer (adjusted s c))
   \<and> (\<bar>\<lfloor>t\<rfloor> - lastSecond s\<bar> \<le> SKIP_THRESHOLD \<longrightarrow>
        (\<exists>xs. feed (onInterval throws p t s) = feed s @ xs
              \<and> (\<forall>c\<in>set xs. is_integer (adjusted s c)))
        \<and> (\<forall>u\<in>set (timers (onInterval throws p t s)).
              u \<in> set (timers s) \<or> is_integer (adjusted s (snd u))))
   \<and> feed (onInterval (\<lambda>c. False) False 200 (tracking [cm 1 (3/2), cm 2 300] (- 1))) = [cm 1 (3/2)]
   \<and> \<not> is_integer (adjusted (tracking [cm 1 (3/2), cm 2 300] (- 1)) (cm 1 (3/2)))"
proof -
  have a: "\<forall>c\<in>set (commentsThisSecond cur cs s). is_integer (adjusted s c)"
    by (auto dest: commentsThisSecond_integer)
  have b: "\<forall>c\<in>set (missedBatch s cs secs). is_integer (adjusted s c)"
    by (auto dest: missedBatch_integer)
  have c: "\<bar>\<lfloor>t\<rfloor> - lastSecond s\<bar> \<le> SKIP_THRESHOLD \<longrightarrow>
        (\<exists>xs. feed (onInterval throws p t s) = feed s @ xs
              \<and> (\<forall>c\<in>set xs. is_integer (adjusted s c)))
        \<and> (\<forall>u\<in>set (timers (onInterval throws p t s)).
              u \<in> set (timers s) \<or> is_integer (adjusted s (snd u)))"
    using onInterval_not_large [where t = t and s = s and throws = throws and p = p] by (auto simp: subset_eq)
  show ?thesis using a b c tick_example by blast
qed

theorem fractional_timestamps_witness:
  "feed (onInterval (\<lambda>c. False) False 13 (tracking [cm 1 (21/2), cm 2 11, cm 3 (25/2), cm 4 13] 10))
     = [cm 2 11, cm 4 13]
   \<and> is_integer (adjusted (tracking [cm 1 (21/2), cm 2 11, cm 3 (25/2), cm 4 13] 10) (cm 2 11))
   \<and> is_integer (adjusted (tracking [cm 1 (21/2), cm 2 11, cm 3 (25/2), cm 4 13] 10) (cm 4 13))"
  using fractional_timestamps [of 13 "[cm 1 (21/2), cm 2 11, cm 3 (25/2), cm 4 13]"
      "tracking [cm 1 (21/2), cm 2 11, cm 3 (25/2), cm 4 13] 10" "[11, 12, 13]" 13 "\<lambda>c. False" False]
  by (simp add: tracking_def cm_def onInterval_def jumpBackfill_def SKIP_THRESHOLD_def
        showMissedMessages_def showCurrentSecondMessages_def commentsThisSecond_def showMessage_def
        adjusted_def getTimeOffset_def feed_def is_integer_def Let_def upto.simps)

section \<open>Further auxiliary facts\<close>

lemma attempted_no_throw: "\<forall>c. \<not> throws c \<Longrightarrow> attempted throws cs = cs"
  by (induction cs) (simp_all add: attempted_def)

lemma whole_second_iff:
  "(\<exists>k\<in>set [a..b]. x = rat_of_int k) \<longleftrightarrow> is_integer x \<and> of_int a \<le> x \<and> x \<le> of_int b"
proof
  assume "\<exists>k\<in>set [a..b]. x = rat_of_int k"
  then show "is_integer x \<and> of_int a \<le> x \<and> x \<le> of_int b"
    by (auto simp: is_integer_def)
next
  assume r: "is_integer x \<and> of_int a \<le> x \<and> x \<le> of_int b"
  then have "of_int \<lfloor>x\<rfloor> = x" unfolding is_integer_def by blast
  then have x: "x = of_int \<lfloor>x\<rfloor>" by (rule sym)
  with r have "rat_of_int a \<le> of_int \<lfloor>x\<rfloor>" "rat_of_int \<lfloor>x\<rfloor> \<le> of_int b" by simp_all
  then have "a \<le> \<lfloor>x\<rfloor>" "\<lfloor>x\<rfloor> \<le> b" by (simp_all only: of_int_le_iff)
  with x show "\<exists>k\<in>set [a..b]. x = rat_of_int k" by auto
qed

lemma set_missedBatch:
  "set (missedBatch s cs [a..b]) =
     {c \<in> set cs. c \<notin> shownMessages s \<and> is_integer (adjusted s c)
                  \<and> of_int a \<le> adjusted s c \<and> adjusted s c \<le> of_int b}"
proof -
  have "set (missedBatch s cs [a..b]) =
     {c \<in> set cs. c \<notin> shownMessages s \<and> (\<exists>k\<in>set [a..b]. adjusted s c = rat_of_int k)}"
    by (auto simp: missedBatch_def)
  then show ?thesis by (simp only: whole_second_iff)
qed

lemma sorted_adjusted:
  "sorted (map content_offset_seconds cs) \<Longrightarrow> sorted (map (adjusted s) cs)"
  by (simp add: sorted_map adjusted_def)

lemma missedBatch_sorted:
  assumes "sorted (map content_offset_seconds cs)"
  shows "missedBatch s cs [a..b] =
     filter (\<lambda>c. c \<notin> shownMessages s \<and> is_integer (adjusted s c)
                  \<and> of_int a \<le> adjusted s c \<and> adjusted s c \<le> of_int b) cs"
proof -
  have "missedBatch s cs [a..b] =
     filter (\<lambda>c. (\<exists>k\<in>set [a..b]. adjusted s c = rat_of_int k) \<and> c \<notin> shownMessages s) cs"
    unfolding missedBatch_def
    by (rule concat_filter_sorted [OF sorted_adjusted [OF assms]]) simp
  also have "\<dots> = filter (\<lambda>c. c \<notin> shownMessages s \<and> is_integer (adjusted s c)
                  \<and> of_int a \<le> adjusted s c \<and> adjusted s c \<le> of_int b) cs"
    by (rule filter_cong) (auto simp only: whole_second_iff)
  finally show ?thesis .
qed

lemma onInterval_small:
  assumes "video s" "1 < \<bar>\<lfloor>t\<rfloor> - lastSecond s\<bar>" "\<bar>\<lfloor>t\<rfloor> - lastSecond s\<bar> \<le> SKIP_THRESHOLD"
  shows "onInterval throws False t s =
     showCurrentSecondMessages \<lfloor>t\<rfloor>
       ((showMissedMessages throws (min (lastSecond s) \<lfloor>t\<rfloor> + 1) (max (lastSecond s) \<lfloor>t\<rfloor>) s)
          \<lparr>lastSecond := \<lfloor>t\<rfloor>\<rparr>)"
proof -
  have "\<lfloor>t\<rfloor> \<noteq> lastSecond s" using assms(2) by auto
  then show ?thesis using assms
    by (simp add: onInterval_def jumpBackfill_def Let_def)
qed

lemma onInterval_small_Some:
  assumes "video s" "1 < \<bar>\<lfloor>t\<rfloor> - lastSecond s\<bar>" "\<bar>\<lfloor>t\<rfloor> - lastSecond s\<bar> \<le> SKIP_THRESHOLD"
    and "chatData s = Some cs" "messageList s = Some ml" "\<forall>c. \<not> throws c"
  defines "batch \<equiv> missedBatch s cs [min (lastSecond s) \<lfloor>t\<rfloor> + 1 .. max (lastSecond s) \<lfloor>t\<rfloor>]"
  shows "onInterval throws False t s =
     s\<lparr>shownMessages := shownMessages s \<union> set batch,
       messageList := Some (ml\<lparr>children := children ml @ batch\<rparr>),
       lastSecond := \<lfloor>t\<rfloor>,
       timers := fold enqueue
          (stagger (now s)
             (filter (\<lambda>c. adjusted s c = of_int \<lfloor>t\<rfloor> \<and> c \<notin> shownMessages s \<union> set batch) cs))
          (timers s)\<rparr>"
proof -
  have nt: "\<not> list_ex throws batch" "takeWhile (\<lambda>c. \<not> throws c) batch = batch"
    using assms(6) by (simp_all add: list_ex_iff)
  show ?thesis
    unfolding onInterval_small [OF assms(1-3)]
    using assms(4,5) nt
    by (simp add: showMissedMessages_Some attempted_no_throw [OF assms(6)]
          showCurrentSecondMessages_timers commentsThisSecond_def batch_def [symmetric])
qed

lemma elapse_Some:
  assumes "messageList s = Some ml"
  shows "\<exists>xs S con. elapse throws dt s =
     s\<lparr>timers := dropWhile (\<lambda>u. fst u \<le> now s + dt) (timers s), now := now s + dt,
       shownMessages := S,
       messageList := Some (ml\<lparr>children := children ml @ xs\<rparr>),
       console := con\<rparr>"
proof -
  let ?s0 = "s\<lparr>timers := dropWhile (\<lambda>u. fst u \<le> now s + dt) (timers s), now := now s + dt\<rparr>"
  have m: "messageList ?s0 = Some ml" using assms by simp
  show ?thesis
    unfolding elapse_def Let_def fold_fireTimer_Some [OF m] by auto
qed

lemma elapse_None:
  assumes "messageList s = None"
  shows "\<exists>con. elapse throws dt s =
     s\<lparr>timers := dropWhile (\<lambda>u. fst u \<le> now s + dt) (timers s), now := now s + dt,
       console := con\<rparr>"
proof -
  let ?s0 = "s\<lparr>timers := dropWhile (\<lambda>u. fst u \<le> now s + dt) (timers s), now := now s + dt\<rparr>"
  have m: "messageList ?s0 = None" using assms by simp
  show ?thesis
    unfolding elapse_def Let_def fold_fireTimer_None [OF m] by auto
qed







lemma jumpBackfill_near:
  "\<bar>cur - lastSecond s\<bar> \<le> 1 \<Longrightarrow> jumpBackfill throws cur s = s"
  by (simp add: jumpBackfill_def SKIP_THRESHOLD_def)

lemma onInterval_phases:
  "video s \<Longrightarrow> \<lfloor>t\<rfloor> \<noteq> lastSecond s \<Longrightarrow>
   onInterval throws False t s =
     showCurrentSecondMessages \<lfloor>t\<rfloor> ((jumpBackfill throws \<lfloor>t\<rfloor> s)\<lparr>lastSecond := \<lfloor>t\<rfloor>\<rparr>)"
  by (simp add: onInterval_def Let_def)

lemma showMissedMessages_thrown:
  assumes "chatData s = Some cs" "messageList s \<noteq> None"
  shows "feed (showMissedMessages throws a b s) =
           feed s @ takeWhile (\<lambda>c. \<not> throws c) (missedBatch s cs [a..b])"
    and "console (showMissedMessages throws a b s) =
           console s @ (if \<exists>c\<in>set (missedBatch s cs [a..b]). throws c
                        then [''Error showing missed messages''] else [])"
proof -
  from assms(2) obtain ml where ml: "messageList s = Some ml" by auto
  show "feed (showMissedMessages throws a b s) =
           feed s @ takeWhile (\<lambda>c. \<not> throws c) (missedBatch s cs [a..b])"
    using ml by (simp add: showMissedMessages_Some [OF assms(1) ml] feed_def)
  show "console (showMissedMessages throws a b s) =
           console s @ (if \<exists>c\<in>set (missedBatch s cs [a..b]). throws c
                        then [''Error showing missed messages''] else [])"
    by (simp add: showMissedMessages_Some [OF assms(1) ml] list_ex_iff)
qed

lemma showPreviousMessages_thrown:
  assumes "chatData s = Some cs" "messageList s \<noteq> None"
  shows "feed (showPreviousMessages throws sec s) =
           feed s @ takeWhile (\<lambda>c. \<not> throws c) (unshown (shownMessages s) (previousWindow s cs sec))"
    and "console (showPreviousMessages throws sec s) =
           console s @ (if \<exists>c\<in>set (unshown (shownMessages s) (previousWindow s cs sec)). throws c
                        then [''Error showing previous messages''] else [])"
proof -
  from assms(2) obtain ml where ml: "messageList s = Some ml" by auto
  show "feed (showPreviousMessages throws sec s) =
           feed s @ takeWhile (\<lambda>c. \<not> throws c) (unshown (shownMessages s) (previousWindow s cs sec))"
    using ml by (simp add: showPreviousMessages_Some [OF assms(1) ml] feed_def)
  show "console (showPreviousMessages throws sec s) =
           console s @ (if \<exists>c\<in>set (unshown (shownMessages s) (previousWindow s cs sec)). throws c
                        then [''Error showing previous messages''] else [])"
    by (simp add: showPreviousMessages_Some [OF assms(1) ml] list_ex_iff)
qed

lemma unshown_empty_set: "set (unshown S xs) = set xs - S"
  by (induction xs arbitrary: S) auto

lemma updateSettings_refresh:
  assumes "isActive s" "video s" "chatData s = Some cs" "messageList s = Some ml"
    and "new \<noteq> timeOffset s"
  shows "updateSettings throws (Some new) t s =
     showPreviousMessages throws \<lfloor>t\<rfloor>
       (s\<lparr>timeOffset := new, shownMessages := {},
          messageList := Some (ml\<lparr>children := []\<rparr>), lastSecond := - 1\<rparr>)"
  using assms
  by (auto simp: updateSettings_def refreshChatWithNewOffset_def clearMessageList_def Let_def)

text \<open>
  The indices that \<^verbatim>\<open>showPreviousMessages\<close> visits lie inside the log, so every
  \<open>cs ! i\<close> of the model is a comment of the log, as \<^verbatim>\<open>chatData.comments[i]\<close> is.
  The pending timers stay in the order of their due times through every event.
\<close>

lemma findIndex_range: "- 1 \<le> findIndex P xs \<and> findIndex P xs < int (length xs)"
  by (induction xs) (auto simp: Let_def)

lemma findIndex_none: "findIndex P xs = - 1 \<longleftrightarrow> (\<forall>x\<in>set xs. \<not> P x)"
proof (induction xs)
  case Nil
  then show ?case by simp
next
  case (Cons x xs)
  have "findIndex P xs + 1 \<noteq> - 1" using findIndex_range [of P xs] by simp
  with Cons show ?case by (auto simp: Let_def)
qed

lemma previousWindow_in_log: "set (previousWindow s cs sec) \<subseteq> set cs"
proof -
  let ?k = "findIndex (\<lambda>c. adjusted s c < of_int sec) (rev cs)"
  have "nat ?k \<le> length cs"
    using findIndex_range [of "\<lambda>c. adjusted s c < of_int sec" "rev cs"]
    by (simp add: nat_le_iff less_imp_le)
  then show ?thesis by (auto simp: previousWindow_def Let_def)
qed

lemma previousWindow_after_last:
  assumes "cs \<noteq> []" "adjusted s (last cs) < of_int sec"
  shows "previousWindow s cs sec = []"
proof -
  from assms(1) obtain ys y where "cs = ys @ [y]"
    by (cases cs rule: rev_cases) auto
  with assms(2) have "findIndex (\<lambda>c. adjusted s c < of_int sec) (rev cs) = 0" by simp
  then show ?thesis by (simp add: previousWindow_def)
qed

lemma timers_sorted_elapse:
  "sorted (map fst (timers s)) \<Longrightarrow> sorted (map fst (timers (elapse throws dt s)))"
proof -
  assume a: "sorted (map fst (timers s))"
  let ?r = "dropWhile (\<lambda>u. fst u \<le> now s + dt) (timers s)"
  have r: "sorted (map fst ?r)" using a by (simp add: sorted_map dropWhile_eq_drop)
  show ?thesis
  proof (cases "messageList s")
    case None
    from elapse_None [OF None, of throws dt] r show ?thesis by auto
  next
    case (Some ml)
    from elapse_Some [OF Some, of throws dt] r show ?thesis by auto
  qed
qed

lemma timers_sorted_onInterval:
  "sorted (map fst (timers s)) \<Longrightarrow> sorted (map fst (timers (onInterval throws p t s)))"
proof -
  assume a: "sorted (map fst (timers s))"
  have sc: "sorted (map fst (timers (showCurrentSecondMessages cur s')))"
    if "sorted (map fst (timers s'))" for cur s'
  proof (cases "chatData s'")
    case None
    with that show ?thesis by (simp add: showCurrentSecondMessages_None)
  next
    case (Some cs)
    with that fold_enqueue_subseq [OF that stagger_sorted] show ?thesis
      by (simp add: showCurrentSecondMessages_timers)
  qed
  show ?thesis
    using a sc [of "(jumpBackfill throws \<lfloor>t\<rfloor> s)\<lparr>lastSecond := \<lfloor>t\<rfloor>\<rparr>" "\<lfloor>t\<rfloor>"]
    by (simp add: onInterval_def Let_def)
qed

lemma timers_updateSettings: "timers (updateSettings throws new t s) = timers s"
  by (cases new) (simp_all add: updateSettings_def refreshChatWithNewOffset_def Let_def)

lemma timers_sorted_run:
  "sorted (map fst (timers s)) \<Longrightarrow> sorted (map fst (timers (run throws ins s)))"
proof (induction ins arbitrary: s)
  case Nil
  then show ?case by (simp add: run_def)
next
  case (Cons i ins)
  have "sorted (map fst (timers (step throws i s)))"
    using Cons.prems
    by (cases i) (simp_all add: timers_sorted_onInterval timers_sorted_elapse
                    timers_updateSettings cleanup_def)
  from Cons.IH [OF this] show ?case by (simp add: run_def)
qed

section \<open>Small jumps\<close>

text \<open>
  Claim C3 (as amended). On a small jump (\<open>1 < |currentSecond - previousSecond| \<le> 15\<close>,
  either direction) the sample appends at once, with no timer, exactly the not yet
  revealed comments whose adjusted timestamp is a whole second from \<open>min + 1\<close> to \<open>max\<close>
  of the two seconds (the lower of the two is excluded), ordered by second and in log
  order within a second, which is log order when the log is sorted by timestamp; for a
  jump from 10 to 13 these are the seconds 11, 12, 13. \<^verbatim>\<open>shownMessages\<close> is not cleared
  but grows by the batch. The only timers the sample adds are for comments of the current
  second outside the batch: none on a jump forward, and on a jump backward those of the new
  current second, which are staggered as on a forward tick.
\<close>

theorem small_jump_backfill:
  assumes "video s" and "1 < \<bar>\<lfloor>t\<rfloor> - lastSecond s\<bar>" and "\<bar>\<lfloor>t\<rfloor> - lastSecond s\<bar> \<le> SKIP_THRESHOLD"
    and "chatData s = Some cs" and "messageList s \<noteq> None" and "\<forall>c. \<not> throws c"
  defines "lo \<equiv> min (lastSecond s) \<lfloor>t\<rfloor> + 1" and "hi \<equiv> max (lastSecond s) \<lfloor>t\<rfloor>"
  defines "batch \<equiv> missedBatch s cs [lo..hi]"
  shows "feed (onInterval throws False t s) = feed s @ batch
    \<and> shownMessages (onInterval throws False t s) = shownMessages s \<union> set batch
    \<and> set batch = {c \<in> set cs. c \<notin> shownMessages s \<and> is_integer (adjusted s c)
                      \<and> of_int lo \<le> adjusted s c \<and> adjusted s c \<le> of_int hi}
    \<and> (sorted (map content_offset_seconds cs) \<longrightarrow>
         batch = filter (\<lambda>c. c \<notin> shownMessages s \<and> is_integer (adjusted s c)
                      \<and> of_int lo \<le> adjusted s c \<and> adjusted s c \<le> of_int hi) cs)
    \<and> timers (onInterval throws False t s) =
         fold enqueue
           (stagger (now s)
              (filter (\<lambda>c. adjusted s c = of_int \<lfloor>t\<rfloor> \<and> c \<notin> shownMessages s \<union> set batch) cs))
           (timers s)
    \<and> (lastSecond s < \<lfloor>t\<rfloor> \<longrightarrow> timers (onInterval throws False t s) = timers s)
    \<and> (lastSecond s = 10 \<and> \<lfloor>t\<rfloor> = 13 \<longrightarrow> [lo..hi] = [11, 12, 13])"
proof -
  from assms(5) obtain ml where ml: "messageList s = Some ml" by auto
  note eq = onInterval_small_Some [OF assms(1-4) ml assms(6), folded lo_def hi_def, folded batch_def]
  have 1: "feed (onInterval throws False t s) = feed s @ batch"
    using ml by (simp add: eq feed_def)
  have 2: "shownMessages (onInterval throws False t s) = shownMessages s \<union> set batch"
    by (simp add: eq)
  have 3: "set batch = {c \<in> set cs. c \<notin> shownMessages s \<and> is_integer (adjusted s c)
                      \<and> of_int lo \<le> adjusted s c \<and> adjusted s c \<le> of_int hi}"
    unfolding batch_def by (rule set_missedBatch)
  have 4: "sorted (map content_offset_seconds cs) \<longrightarrow>
         batch = filter (\<lambda>c. c \<notin> shownMessages s \<and> is_integer (adjusted s c)
                      \<and> of_int lo \<le> adjusted s c \<and> adjusted s c \<le> of_int hi) cs"
    unfolding batch_def by (auto intro: missedBatch_sorted)
  have 5: "timers (onInterval throws False t s) =
         fold enqueue
           (stagger (now s)
              (filter (\<lambda>c. adjusted s c = of_int \<lfloor>t\<rfloor> \<and> c \<notin> shownMessages s \<union> set batch) cs))
           (timers s)"
    by (simp add: eq)
  have 6: "timers (onInterval throws False t s) = timers s" if fw: "lastSecond s < \<lfloor>t\<rfloor>"
  proof -
    have "filter (\<lambda>c. adjusted s c = of_int \<lfloor>t\<rfloor> \<and> c \<notin> shownMessages s \<union> set batch) cs = []"
      unfolding filter_empty_conv
    proof
      fix c assume c: "c \<in> set cs"
      show "\<not> (adjusted s c = of_int \<lfloor>t\<rfloor> \<and> c \<notin> shownMessages s \<union> set batch)"
      proof
        assume a: "adjusted s c = of_int \<lfloor>t\<rfloor> \<and> c \<notin> shownMessages s \<union> set batch"
        have "lo \<le> \<lfloor>t\<rfloor>" "\<lfloor>t\<rfloor> \<le> hi" using fw by (simp_all add: lo_def hi_def)
        then have "rat_of_int lo \<le> of_int \<lfloor>t\<rfloor>" "rat_of_int \<lfloor>t\<rfloor> \<le> of_int hi"
          by (simp_all only: of_int_le_iff)
        with a c have "c \<in> set batch" unfolding 3 by (simp add: is_integer_def)
        with a show False by simp
      qed
    qed
    then show ?thesis by (simp add: 5 stagger_def)
  qed
  have 7: "lastSecond s = 10 \<and> \<lfloor>t\<rfloor> = 13 \<longrightarrow> [lo..hi] = [11, 12, 13]"
    by (simp add: lo_def hi_def upto.simps)
  show ?thesis using 1 2 3 4 5 6 7 by blast
qed

text \<open>A jump from second 10 to second 13 over a log with comments at 10, 11, 12.5, 12, 13, 14.\<close>

theorem small_jump_backfill_witness:
  "feed (onInterval (\<lambda>c. False) False 13
      (tracking [cm 1 10, cm 2 11, cm 3 (25/2), cm 4 12, cm 5 13, cm 6 14] 10))
     = [cm 2 11, cm 4 12, cm 5 13]"
proof -
  let ?cs = "[cm 1 10, cm 2 11, cm 3 (25/2), cm 4 12, cm 5 13, cm 6 14]"
  let ?S = "tracking ?cs 10"
  have h: "video ?S" "1 < \<bar>\<lfloor>13 :: rat\<rfloor> - lastSecond ?S\<bar>"
    "\<bar>\<lfloor>13 :: rat\<rfloor> - lastSecond ?S\<bar> \<le> SKIP_THRESHOLD"
    "chatData ?S = Some ?cs" "messageList ?S \<noteq> None" "\<forall>c. \<not> (\<lambda>c. False) c"
    by (simp_all add: tracking_def SKIP_THRESHOLD_def)
  have "feed (onInterval (\<lambda>c. False) False 13 ?S) =
      feed ?S @ missedBatch ?S ?cs [min (lastSecond ?S) \<lfloor>13 :: rat\<rfloor> + 1 .. max (lastSecond ?S) \<lfloor>13 :: rat\<rfloor>]"
    using small_jump_backfill [OF h] by (rule conjunct1)
  also have "\<dots> = [cm 2 11, cm 4 12, cm 5 13]"
    by (simp add: tracking_def cm_def missedBatch_def adjusted_def getTimeOffset_def feed_def
          upto.simps)
  finally show ?thesis .
qed

text \<open>
  A jump back from second 13 to second 10: the two comments at second 10, not yet
  revealed and inside the range bounded by the two seconds, are not appended by the sample
  but put on timers, the second one 500 ms later. The state before the jump is the one a
  fresh session is in after seeking to second 40 and back to second 13.
\<close>

theorem small_jump_backfill_counterexample:
  "feed (onInterval (\<lambda>c. False) False 10 (tracking [cm 1 10, cm 2 10, cm 3 12] 13)) = [cm 3 12]
   \<and> timers (onInterval (\<lambda>c. False) False 10 (tracking [cm 1 10, cm 2 10, cm 3 12] 13))
       = [(0, cm 1 10), (500, cm 2 10)]
   \<and> adjusted (tracking [cm 1 10, cm 2 10, cm 3 12] 13) (cm 2 10) = 10
   \<and> cm 2 10 \<notin> shownMessages (tracking [cm 1 10, cm 2 10, cm 3 12] 13)
   \<and> run (\<lambda>c. False) [Sample False 40, Sample False 13] (tracking [cm 1 10, cm 2 10, cm 3 12] (- 1))
       = tracking [cm 1 10, cm 2 10, cm 3 12] 13"
  by (simp add: run_def tracking_def cm_def onInterval_def jumpBackfill_def SKIP_THRESHOLD_def
        PREVIOUS_MESSAGES_COUNT_def showPreviousMessages_def clearMessageList_def
        showCurrentSecondMessages_def commentsThisSecond_def adjusted_def getTimeOffset_def
        setTimeout_def showMessage_def showMissedMessages_def
        feed_def Let_def upto.simps)

section \<open>The assignment to lastSecond\<close>

text \<open>
  Claim C4 (as amended). On a sample that changes the second, the backfill of a small or
  large jump runs first, with \<^verbatim>\<open>lastSecond\<close> still at its old value; then
  \<^verbatim>\<open>lastSecond = currentSecond\<close> is assigned; then the current second's comments are
  scheduled, and that last step appends nothing. The backfill catches the exceptions of
  its reveals, so whatever throws, \<^verbatim>\<open>lastSecond\<close> equals the current second after the
  sample, and a second sample at the same second changes nothing: no transition is
  processed twice. On a forward tick there is no backfill.
\<close>

theorem lastSecond_assignment:
  "(video s \<longrightarrow> lastSecond (onInterval throws False t s) = \<lfloor>t\<rfloor>)
   \<and> onInterval throws False t (onInterval throws False t s) = onInterval throws False t s
   \<and> (video s \<and> \<lfloor>t\<rfloor> \<noteq> lastSecond s \<longrightarrow>
        onInterval throws False t s =
          showCurrentSecondMessages \<lfloor>t\<rfloor> ((jumpBackfill throws \<lfloor>t\<rfloor> s)\<lparr>lastSecond := \<lfloor>t\<rfloor>\<rparr>))
   \<and> lastSecond (jumpBackfill throws cur s) = lastSecond s
   \<and> (\<bar>cur - lastSecond s\<bar> \<le> 1 \<longrightarrow> jumpBackfill throws cur s = s)
   \<and> feed (showCurrentSecondMessages cur s) = feed s
   \<and> shownMessages (showCurrentSecondMessages cur s) = shownMessages s"
  by (simp add: onInterval_lastSecond onInterval_again onInterval_phases jumpBackfill_near feed_def)

text \<open>A small jump whose first reveal throws: the assignment is still made.\<close>

theorem lastSecond_assignment_witness:
  "lastSecond (onInterval (\<lambda>c. ref c = 1) False 13 (tracking [cm 1 11, cm 2 12] 10)) = 13
   \<and> onInterval (\<lambda>c. ref c = 1) False 13
        (onInterval (\<lambda>c. ref c = 1) False 13 (tracking [cm 1 11, cm 2 12] 10))
       = onInterval (\<lambda>c. ref c = 1) False 13 (tracking [cm 1 11, cm 2 12] 10)
   \<and> console (onInterval (\<lambda>c. ref c = 1) False 13 (tracking [cm 1 11, cm 2 12] 10))
       = [''Error showing missed messages'']"
  using lastSecond_assignment [of "tracking [cm 1 11, cm 2 12] 10" "\<lambda>c. ref c = 1" 13 13]
  by (simp add: tracking_def cm_def onInterval_def jumpBackfill_def SKIP_THRESHOLD_def
        showMissedMessages_def showMessage_def adjusted_def getTimeOffset_def
        showCurrentSecondMessages_def commentsThisSecond_def Let_def upto.simps)

text \<open>
  A jump from second 10 to second 13: when the backfill has appended the comment at
  second 11, \<^verbatim>\<open>lastSecond\<close> is still 10.
\<close>

theorem lastSecond_assignment_counterexample:
  "lastSecond (jumpBackfill (\<lambda>c. False) 13 (tracking [cm 1 11] 10)) = 10
   \<and> feed (jumpBackfill (\<lambda>c. False) 13 (tracking [cm 1 11] 10)) = [cm 1 11]
   \<and> onInterval (\<lambda>c. False) False 13 (tracking [cm 1 11] 10) =
       showCurrentSecondMessages 13
         ((jumpBackfill (\<lambda>c. False) 13 (tracking [cm 1 11] 10))\<lparr>lastSecond := 13\<rparr>)"
  by (simp add: tracking_def cm_def onInterval_def jumpBackfill_def SKIP_THRESHOLD_def
        showMissedMessages_def showMessage_def adjusted_def getTimeOffset_def feed_def
        Let_def upto.simps)

section \<open>A reveal that throws\<close>

text \<open>
  Claim C5 (as amended). When showing a comment throws inside the backfill of a small or
  large jump, the handler around the whole loop catches and logs the error: the comment
  is skipped and the remaining comments of that batch are not shown (the feed grows by
  the comments before the first throwing one). On a forward tick every comment has its
  own timer, so the others are still shown. In neither case does the error leave the
  sample: \<^verbatim>\<open>lastSecond\<close> is assigned, the current second's comments are scheduled, and
  the interval, the video and the chat data stay as they are.
\<close>

theorem sink_failure_in_batch:
  "(chatData s = Some cs \<and> messageList s \<noteq> None \<longrightarrow>
      feed (showMissedMessages throws a b s) =
        feed s @ takeWhile (\<lambda>c. \<not> throws c) (missedBatch s cs [a..b])
    \<and> console (showMissedMessages throws a b s) =
        console s @ (if \<exists>c\<in>set (missedBatch s cs [a..b]). throws c
                     then [''Error showing missed messages''] else [])
    \<and> feed (showPreviousMessages throws sec s) =
        feed s @ takeWhile (\<lambda>c. \<not> throws c) (unshown (shownMessages s) (previousWindow s cs sec))
    \<and> console (showPreviousMessages throws sec s) =
        console s @ (if \<exists>c\<in>set (unshown (shownMessages s) (previousWindow s cs sec)). throws c
                     then [''Error showing previous messages''] else []))
   \<and> (messageList s \<noteq> None \<and> timers s = stagger (now s) sel \<longrightarrow>
        feed (elapse throws 1000 s) = feed s @ filter (\<lambda>c. \<not> throws c) sel)
   \<and> (video s \<longrightarrow> lastSecond (onInterval throws False t s) = \<lfloor>t\<rfloor>)
   \<and> (video s \<and> \<lfloor>t\<rfloor> \<noteq> lastSecond s \<longrightarrow>
        timers (onInterval throws False t s) =
          timers (showCurrentSecondMessages \<lfloor>t\<rfloor> ((jumpBackfill throws \<lfloor>t\<rfloor> s)\<lparr>lastSecond := \<lfloor>t\<rfloor>\<rparr>)))
   \<and> videoInterval (onInterval throws p t s) = videoInterval s
   \<and> isActive (onInterval throws p t s) = isActive s
   \<and> video (onInterval throws p t s) = video s
   \<and> chatData (onInterval throws p t s) = chatData s"
proof -
  have 1: "messageList s \<noteq> None \<and> timers s = stagger (now s) sel \<longrightarrow>
        feed (elapse throws 1000 s) = feed s @ filter (\<lambda>c. \<not> throws c) sel"
    using stagger_fired(1) [of s _ sel throws] by auto
  show ?thesis
    using 1 showMissedMessages_thrown [of s cs throws a b]
      showPreviousMessages_thrown [of s cs throws sec]
    by (simp add: onInterval_lastSecond onInterval_phases)
qed

text \<open>A small jump whose second comment throws: the first is shown, the error logged.\<close>

theorem sink_failure_in_batch_witness:
  "feed (showMissedMessages (\<lambda>c. ref c = 2) 11 13 (tracking [cm 1 11, cm 2 12, cm 3 12] 10)) = [cm 1 11]
   \<and> console (showMissedMessages (\<lambda>c. ref c = 2) 11 13 (tracking [cm 1 11, cm 2 12, cm 3 12] 10))
       = [''Error showing missed messages'']
   \<and> lastSecond (onInterval (\<lambda>c. ref c = 2) False 13 (tracking [cm 1 11, cm 2 12, cm 3 12] 10)) = 13"
  using sink_failure_in_batch [of "tracking [cm 1 11, cm 2 12, cm 3 12] 10" "[cm 1 11, cm 2 12, cm 3 12]"
      "\<lambda>c. ref c = 2" 11 13 13 "[]" 13 False]
  by (simp add: tracking_def cm_def missedBatch_def adjusted_def getTimeOffset_def feed_def
        upto.simps)

text \<open>
  A jump from second 10 to second 13 with comments at 11, 12 and 12: showing the first one
  throws, and the two others, of the same batch, are never shown.
\<close>

theorem sink_failure_in_batch_counterexample:
  "feed (onInterval (\<lambda>c. ref c = 1) False 13 (tracking [cm 1 11, cm 2 12, cm 3 12] 10)) = []
   \<and> missedBatch (tracking [cm 1 11, cm 2 12, cm 3 12] 10) [cm 1 11, cm 2 12, cm 3 12] [11, 12, 13]
       = [cm 1 11, cm 2 12, cm 3 12]
   \<and> feed (elapse (\<lambda>c. ref c = 1) 1000
        (onInterval (\<lambda>c. ref c = 1) False 13 (tracking [cm 1 11, cm 2 12, cm 3 12] 10))) = []
   \<and> console (onInterval (\<lambda>c. ref c = 1) False 13 (tracking [cm 1 11, cm 2 12, cm 3 12] 10))
       = [''Error showing missed messages'']"
  by (simp add: tracking_def cm_def onInterval_def jumpBackfill_def SKIP_THRESHOLD_def
        showMissedMessages_def showMessage_def adjusted_def getTimeOffset_def feed_def
        showCurrentSecondMessages_def commentsThisSecond_def missedBatch_def elapse_def
        Let_def upto.simps)

section \<open>Changing the offset\<close>

text \<open>
  Claim C6 (as amended). Changing the offset of an active session clears
  \<^verbatim>\<open>shownMessages\<close> and the feed, resets \<^verbatim>\<open>lastSecond\<close> to -1 and runs only the
  previous-messages backfill for the current second under the new offset: afterwards
  \<^verbatim>\<open>shownMessages\<close> holds exactly the comments that backfill appended (when no reveal
  throws), \<^verbatim>\<open>lastSecond\<close> is still -1 and no timer was added: the change itself
  schedules nothing, so the comments of the current second are not staggered by it. The
  comments the backfill appends are those of the window that \<^verbatim>\<open>showPreviousMessages\<close>
  visits, whatever their timestamps. The state of a fresh large jump to the current second
  under the new offset is reached by the next sample of the playing video at that second,
  when it is at least 15 and no reveal throws.
\<close>

theorem offset_change:
  fixes throws :: "comment \<Rightarrow> bool" and t :: rat
  assumes "isActive s" and "video s" and "chatData s = Some cs" and "messageList s = Some ml"
    and "new \<noteq> timeOffset s"
  defines "s0 \<equiv> s\<lparr>timeOffset := new, shownMessages := {},
                   messageList := Some (ml\<lparr>children := []\<rparr>), lastSecond := - 1\<rparr>"
  defines "s' \<equiv> updateSettings throws (Some new) t s"
  shows "s' = showPreviousMessages throws \<lfloor>t\<rfloor> s0
    \<and> lastSecond s' = - 1
    \<and> timers s' = timers s
    \<and> timeOffset s' = new
    \<and> ((\<forall>c. \<not> throws c) \<longrightarrow>
          feed s' = unshown {} (previousWindow s0 cs \<lfloor>t\<rfloor>)
        \<and> shownMessages s' = set (feed s'))
    \<and> ((\<forall>c. \<not> throws c) \<and> SKIP_THRESHOLD < \<bar>\<lfloor>t\<rfloor> - (- 1)\<bar> \<longrightarrow>
          onInterval throws False t s' =
            onInterval throws False t (s\<lparr>timeOffset := new, lastSecond := - 1\<rparr>))"
proof -
  have eq: "s' = showPreviousMessages throws \<lfloor>t\<rfloor> s0"
    unfolding s'_def s0_def by (rule updateSettings_refresh [OF assms(1-5)])
  have cd0: "chatData s0 = Some cs" and ml0: "messageList s0 = Some (ml\<lparr>children := []\<rparr>)"
    using assms(3) by (simp_all add: s0_def)
  note ex = showPreviousMessages_Some [OF cd0 ml0, of throws "\<lfloor>t\<rfloor>"]
  have 2: "lastSecond s' = - 1" "timers s' = timers s" "timeOffset s' = new"
    by (simp_all add: eq) (simp_all add: s0_def)
  have 3: "feed s' = unshown {} (previousWindow s0 cs \<lfloor>t\<rfloor>) \<and> shownMessages s' = set (feed s')"
    if nt: "\<forall>c. \<not> throws c"
  proof -
    have tw: "takeWhile (\<lambda>c. \<not> throws c) (unshown {} (previousWindow s0 cs \<lfloor>t\<rfloor>))
        = unshown {} (previousWindow s0 cs \<lfloor>t\<rfloor>)"
      using nt by simp
    have sh: "shownMessages s0 = {}" by (simp add: s0_def)
    show ?thesis
      unfolding eq ex sh tw attempted_no_throw [OF nt] by (simp add: feed_def)
  qed
  have 4: "onInterval throws False t s' =
            onInterval throws False t (s\<lparr>timeOffset := new, lastSecond := - 1\<rparr>)"
    if nt: "\<forall>c. \<not> throws c" and big: "SKIP_THRESHOLD < \<bar>\<lfloor>t\<rfloor> - (- 1)\<bar>"
  proof -
    have ne: "\<lfloor>t\<rfloor> \<noteq> - 1" using big by (auto simp: SKIP_THRESHOLD_def)
    have nl: "\<not> list_ex throws (unshown {} (previousWindow s0 cs \<lfloor>t\<rfloor>))"
      using nt by (simp add: list_ex_iff)
    have sh: "shownMessages s0 = {}" by (simp add: s0_def)
    have c1: "clearMessageList (s'\<lparr>shownMessages := {}\<rparr>) = s0"
      unfolding eq ex sh using nl by (simp add: clearMessageList_def s0_def)
    have c2: "clearMessageList (s\<lparr>timeOffset := new, lastSecond := - 1, shownMessages := {}\<rparr>) = s0"
      using assms(4) by (simp add: clearMessageList_def s0_def)
    have l: "lastSecond s' = - 1" "video s'" using 2(1) assms(2) by (simp_all add: eq s0_def)
    show ?thesis
      using ne big l assms(2) c1 c2
      by (simp add: onInterval_def jumpBackfill_def Let_def)
  qed
  show ?thesis using eq 2 3 4 by blast
qed

text \<open>An offset change from 0 to 10 at second 50.\<close>

theorem offset_change_witness:
  "feed (updateSettings (\<lambda>c. False) (Some (Number 10)) 50 (tracking [cm 1 20, cm 2 30, cm 3 90] 50))
     = [cm 1 20]
   \<and> shownMessages (updateSettings (\<lambda>c. False) (Some (Number 10)) 50 (tracking [cm 1 20, cm 2 30, cm 3 90] 50))
     = {cm 1 20}
   \<and> lastSecond (updateSettings (\<lambda>c. False) (Some (Number 10)) 50 (tracking [cm 1 20, cm 2 30, cm 3 90] 50))
     = - 1"
  using offset_change [of "tracking [cm 1 20, cm 2 30, cm 3 90] 50" "[cm 1 20, cm 2 30, cm 3 90]"
      "\<lparr>parentNode = True, children = []\<rparr>" "Number 10" "\<lambda>c. False" 50]
  by (simp add: tracking_def cm_def updateSettings_def refreshChatWithNewOffset_def
        clearMessageList_def showPreviousMessages_def showMessage_def previousWindow_def
        onInterval_def jumpBackfill_def SKIP_THRESHOLD_def showCurrentSecondMessages_def
        commentsThisSecond_def
        PREVIOUS_MESSAGES_COUNT_def adjusted_def getTimeOffset_def feed_def Let_def)

text \<open>
  The offset changes from 0 to 10 at second 50, which puts the only comment at the current
  second: after the change nothing is shown or scheduled and \<^verbatim>\<open>lastSecond\<close> is -1,
  whereas a large jump to second 50 from -1 schedules the comment and leaves
  \<^verbatim>\<open>lastSecond\<close> at 50.
\<close>

theorem offset_change_counterexample:
  "lastSecond (updateSettings (\<lambda>c. False) (Some (Number 10)) 50 (tracking [cm 1 40] 50)) = - 1
   \<and> timers (updateSettings (\<lambda>c. False) (Some (Number 10)) 50 (tracking [cm 1 40] 50)) = []
   \<and> shownMessages (updateSettings (\<lambda>c. False) (Some (Number 10)) 50 (tracking [cm 1 40] 50)) = {}
   \<and> adjusted (updateSettings (\<lambda>c. False) (Some (Number 10)) 50 (tracking [cm 1 40] 50)) (cm 1 40) = 50
   \<and> lastSecond (onInterval (\<lambda>c. False) False 50
        ((tracking [cm 1 40] 50)\<lparr>timeOffset := Number 10, lastSecond := - 1\<rparr>)) = 50
   \<and> timers (onInterval (\<lambda>c. False) False 50
        ((tracking [cm 1 40] 50)\<lparr>timeOffset := Number 10, lastSecond := - 1\<rparr>)) = [(0, cm 1 40)]"
  by (simp add: tracking_def cm_def updateSettings_def refreshChatWithNewOffset_def
        clearMessageList_def showPreviousMessages_def onInterval_def jumpBackfill_def
        SKIP_THRESHOLD_def PREVIOUS_MESSAGES_COUNT_def showCurrentSecondMessages_def
        commentsThisSecond_def setTimeout_def adjusted_def getTimeOffset_def Let_def)

section \<open>Teardown\<close>



section \<open>Two defects\<close>

text \<open>
  Claim C1. On a large jump the engine should reveal the up-to-25 most recent comments
  with an adjusted timestamp before the current second. \<^verbatim>\<open>showPreviousMessages\<close> finds
  \<^verbatim>\<open>firstIdx\<close> in the reversed copy of the log and uses it as an index into the log
  itself: in a jump to second 200 over comments at 100, 150 and 300 it shows the one at
  100 and not the one at 150, and over comments at 100 and 150 it shows nothing.
\<close>

theorem large_jump_reveals_wrong_window:
  "feed (onInterval (\<lambda>c. False) False 200 (tracking [cm 1 100, cm 2 150, cm 3 300] 5)) = [cm 1 100]
   \<and> adjusted (tracking [cm 1 100, cm 2 150, cm 3 300] 5) (cm 2 150) = 150
   \<and> feed (onInterval (\<lambda>c. False) False 200 (tracking [cm 1 100, cm 2 150] 5)) = []
   \<and> timers (onInterval (\<lambda>c. False) False 200 (tracking [cm 1 100, cm 2 150] 5)) = []"
  by (simp add: tracking_def cm_def onInterval_def jumpBackfill_def SKIP_THRESHOLD_def
        PREVIOUS_MESSAGES_COUNT_def showPreviousMessages_def clearMessageList_def
        showCurrentSecondMessages_def commentsThisSecond_def showMessage_def
        adjusted_def getTimeOffset_def feed_def Let_def)

text \<open>The comment at 150 s, the most recent one before second 200, is not in the feed.\<close>

theorem large_jump_reveals_wrong_window_witness:
  "cm 2 150 \<notin> set (feed (onInterval (\<lambda>c. False) False 200 (tracking [cm 1 100, cm 2 150, cm 3 300] 5)))"
  using large_jump_reveals_wrong_window by (simp add: cm_def)

text \<open>
  Claim C2. No comment should be shown twice between two clears of \<^verbatim>\<open>shownMessages\<close>.
  The mark is set by \<^verbatim>\<open>showMessage\<close>, when the timer fires, not when the timer is set:
  after a forward tick to second 10 the second of two comments is pending for 500 ms and
  unmarked; a seek back to second 8 within that time backfills the seconds 9 and 10 and
  shows it, and its timer shows it again.
\<close>

theorem pending_reveal_shown_twice:
  "feed (run (\<lambda>c. False) [Sample False 10, Elapse 100, Sample False 8, Elapse 400]
          (tracking [cm 1 10, cm 2 10] 9))
     = [cm 1 10, cm 2 10, cm 2 10]
   \<and> shownMessages (run (\<lambda>c. False) [Sample False 10] (tracking [cm 1 10, cm 2 10] 9)) = {}
   \<and> timers (run (\<lambda>c. False) [Sample False 10] (tracking [cm 1 10, cm 2 10] 9))
     = [(0, cm 1 10), (500, cm 2 10)]"
  by (simp add: run_def tracking_def cm_def onInterval_def jumpBackfill_def SKIP_THRESHOLD_def
        showCurrentSecondMessages_def commentsThisSecond_def adjusted_def getTimeOffset_def
        setTimeout_def elapse_def fireTimer_def showMessage_def showMissedMessages_def
        feed_def Let_def upto.simps)

text \<open>The feed of that run holds a comment twice.\<close>

theorem pending_reveal_shown_twice_witness:
  "\<not> distinct (feed (run (\<lambda>c. False) [Sample False 10, Elapse 100, Sample False 8, Elapse 400]
                     (tracking [cm 1 10, cm 2 10] 9)))"
  using pending_reveal_shown_twice by simp

end
